theory Spec2Isabelle
  imports Main "HOL-Library.Multiset"
begin

section \<open>Numbers\<close>

text \<open>
  The \<open>number\<close> of the source is an IEEE 754 double. Every finite double is an integer
  multiple of the least positive double (2 to the power -1074), with at most 53
  significant bits and a magnitude below 2 to the power 1024: \<open>Fin n\<close> is the double
  that is \<open>n\<close> times the least positive double. The scheduler compares, adds and
  subtracts wait times and does nothing else with them; these operations do not tell
  the two zeros of the format apart, which are the one value \<open>Fin 0\<close> here.
\<close>

datatype number = NaN | NegInf | Fin int | PosInf

text \<open>
  The double 1 as a multiple of the least positive double, and the least magnitude
  that overflows to an infinity.
\<close>

definition scale :: int where
  "scale = 2 ^ 1074"

definition huge :: int where
  "huge = 2 ^ 2098"

text \<open>The double of an integer literal such as \<open>0\<close> or \<open>1\<close>.\<close>

definition num :: "int \<Rightarrow> number" where
  "num v = Fin (v * scale)"

text \<open>The number of bits of a natural number.\<close>

fun bits :: "nat \<Rightarrow> nat" where
  "bits n = (if n = 0 then 0 else Suc (bits (n div 2)))"

declare bits.simps [simp del]

text \<open>
  Rounding of a magnitude to 53 significant bits, to the nearest value and to the even
  one of two nearest values: the bits below the 53 highest ones are cut off, and the
  rest goes up by one where the part cut off is above the half, or is the half with
  an odd rest.
\<close>

definition rnd :: "nat \<Rightarrow> nat" where
  "rnd a =
     (let p = 2 ^ (bits a - 53);
          q = a div p;
          r = a mod p
      in (if p < 2 * r \<or> (2 * r = p \<and> odd q) then q + 1 else q) * p)"

definition round53 :: "int \<Rightarrow> int" where
  "round53 n = sgn n * int (rnd (nat \<bar>n\<bar>))"

text \<open>The double of an exact result: rounded, and infinite where the rounded value overflows.\<close>

definition fround :: "int \<Rightarrow> number" where
  "fround n =
     (let r = round53 n
      in if huge \<le> r then PosInf else if r \<le> - huge then NegInf else Fin r)"

fun fneg :: "number \<Rightarrow> number" where
  "fneg NaN = NaN"
| "fneg NegInf = PosInf"
| "fneg (Fin a) = Fin (- a)"
| "fneg PosInf = NegInf"

text \<open>The operator \<open>+\<close> of the source on numbers.\<close>

fun fadd :: "number \<Rightarrow> number \<Rightarrow> number" where
  "fadd NaN y = NaN"
| "fadd x NaN = NaN"
| "fadd PosInf NegInf = NaN"
| "fadd NegInf PosInf = NaN"
| "fadd PosInf y = PosInf"
| "fadd x PosInf = PosInf"
| "fadd NegInf y = NegInf"
| "fadd x NegInf = NegInf"
| "fadd (Fin a) (Fin b) = fround (a + b)"

text \<open>The operator \<open>-\<close> of the source.\<close>

definition fsub :: "number \<Rightarrow> number \<Rightarrow> number" where
  "fsub x y = fadd x (fneg y)"

text \<open>The comparisons \<open><=\<close> and \<open><\<close> of the source: false where an operand is \<open>NaN\<close>.\<close>

fun fle :: "number \<Rightarrow> number \<Rightarrow> bool" where
  "fle NaN y = False"
| "fle x NaN = False"
| "fle NegInf y = True"
| "fle x PosInf = True"
| "fle x NegInf = False"
| "fle PosInf y = False"
| "fle (Fin a) (Fin b) = (a \<le> b)"

fun flt :: "number \<Rightarrow> number \<Rightarrow> bool" where
  "flt NaN y = False"
| "flt x NaN = False"
| "flt PosInf y = False"
| "flt x NegInf = False"
| "flt NegInf y = True"
| "flt x PosInf = True"
| "flt (Fin a) (Fin b) = (a < b)"

section \<open>Timed entities and the state they live in\<close>

text \<open>
  A \<open>TimedEntity\<close> is a mutable object: the scheduler holds references to entities and
  reads and writes their \<open>waitTime\<close> field through these references. An entity is
  therefore an object identity (\<open>ent\<close>), and the fields live in the state:
  \<^item> \<open>waitTime\<close>: the \<open>waitTime\<close> field of every entity object;
  \<^item> \<open>content\<close>: the array of the scheduler's \<open>BinaryHeap\<close> (\<open>Scheduler.entities\<close>);
  \<^item> \<open>paused\<close>: \<open>Scheduler.paused\<close>;
  \<^item> \<open>world\<close>: everything else that an \<open>update()\<close> may read and write.
  \<open>entity.update()\<close> is arbitrary code of the entity; it is a parameter
  \<open>upd :: ent \<Rightarrow> 'w sys \<Rightarrow> 'w sys\<close> of the scheduler's \<open>run\<close>.
\<close>

type_synonym ent = nat

record 'w sys =
  waitTime :: "ent \<Rightarrow> number"
  content :: "ent list"
  paused :: bool
  world :: 'w

type_synonym 'w update = "ent \<Rightarrow> 'w sys \<Rightarrow> 'w sys"

section \<open>The priority queue\<close>

text \<open>
  Modelled from the spec: the class \<open>BinaryHeap\<close> used by \<open>Scheduler\<close> is not among the
  source files. The spec describes it as a standard binary min-heap over a dense array,
  with sift-up on insert and sift-down on pop, whose key comparisons always call the
  extractor function (here \<open>score\<close>) instead of caching keys. Keys are compared with
  the operator \<open><\<close> of the source.
\<close>

definition swap :: "nat \<Rightarrow> nat \<Rightarrow> 'a list \<Rightarrow> 'a list" where
  "swap i j xs = xs[i := xs ! j, j := xs ! i]"

definition parent :: "nat \<Rightarrow> nat" where
  "parent n = (n - 1) div 2"

text \<open>Modelled from the spec: sift-up of the element at index \<open>n\<close>.\<close>

function bubbleUp :: "('a \<Rightarrow> number) \<Rightarrow> nat \<Rightarrow> 'a list \<Rightarrow> 'a list" where
  "bubbleUp score n xs =
     (if 0 < n \<and> flt (score (xs ! n)) (score (xs ! parent n))
      then bubbleUp score (parent n) (swap n (parent n) xs)
      else xs)"
  by pat_completeness auto
termination
  by (relation "measure (\<lambda>(score, n, xs). n)") (auto simp: parent_def)

text \<open>Modelled from the spec: the index of the smaller of node \<open>n\<close> and its children.\<close>

definition minChild :: "('a \<Rightarrow> number) \<Rightarrow> nat \<Rightarrow> 'a list \<Rightarrow> nat" where
  "minChild score n xs =
     (let child1 = 2 * n + 1;
          child2 = 2 * n + 2;
          m = (if child1 < length xs \<and> flt (score (xs ! child1)) (score (xs ! n))
               then child1 else n)
      in if child2 < length xs \<and> flt (score (xs ! child2)) (score (xs ! m)) then child2 else m)"

text \<open>Modelled from the spec: sift-down of the element at index \<open>n\<close>.\<close>

function sinkDown :: "('a \<Rightarrow> number) \<Rightarrow> nat \<Rightarrow> 'a list \<Rightarrow> 'a list" where
  "sinkDown score n xs =
     (if minChild score n xs \<noteq> n
      then sinkDown score (minChild score n xs) (swap n (minChild score n xs) xs)
      else xs)"
  by pat_completeness auto
termination
  by (relation "measure (\<lambda>(score, n, xs). length xs - n)")
     (auto simp: minChild_def swap_def Let_def split: if_splits)

declare bubbleUp.simps [simp del] sinkDown.simps [simp del]

text \<open>
  Modelled from the spec: the queue operations. \<open>peek\<close> with no argument is \<open>peek\<close> at
  rank 0; a query of an empty queue or of a rank out of range gives no element
  (\<open>undefined\<close> in the source language).
\<close>

definition heap_size :: "'w sys \<Rightarrow> nat" where
  "heap_size s = length (content s)"

definition isEmpty :: "'w sys \<Rightarrow> bool" where
  "isEmpty s = (content s = [])"

definition peek :: "'w sys \<Rightarrow> nat \<Rightarrow> ent option" where
  "peek s i = (if i < length (content s) then Some (content s ! i) else None)"

definition push :: "ent \<Rightarrow> 'w sys \<Rightarrow> 'w sys" where
  "push e s = s\<lparr>content := bubbleUp (waitTime s) (length (content s)) (content s @ [e])\<rparr>"

definition pushAll :: "ent list \<Rightarrow> 'w sys \<Rightarrow> 'w sys" where
  "pushAll es s = fold push es s"

definition pop :: "'w sys \<Rightarrow> ent option \<times> 'w sys" where
  "pop s =
     (case content s of
        [] \<Rightarrow> (None, s)
      | result # rest \<Rightarrow>
          if rest = [] then (Some result, s\<lparr>content := []\<rparr>)
          else (Some result, s\<lparr>content := sinkDown (waitTime s) 0 (last rest # butlast rest)\<rparr>))"

section \<open>The scheduler\<close>

text \<open>
  The class \<open>Scheduler\<close> of \<open>scheduler.ts\<close>. Its method \<open>remove\<close> only forwards to the
  queue and plays no part in what follows; it is left out.
\<close>

definition add :: "ent \<Rightarrow> 'w sys \<Rightarrow> 'w sys" where
  "add entity s = push entity s"

definition addAll :: "ent list \<Rightarrow> 'w sys \<Rightarrow> 'w sys" where
  "addAll entities s = pushAll entities s"

definition clear :: "'w sys \<Rightarrow> 'w sys" where
  "clear s = s\<lparr>content := []\<rparr>"

definition pause :: "'w sys \<Rightarrow> 'w sys" where
  "pause s = s\<lparr>paused := True\<rparr>"

definition resume :: "'w sys \<Rightarrow> 'w sys" where
  "resume s = s\<lparr>paused := False\<rparr>"

text \<open>\<open>isPaused\<close> returns the flag and the state it was called in.\<close>

definition isPaused :: "'w sys \<Rightarrow> bool \<times> 'w sys" where
  "isPaused s = (paused s, s)"

text \<open>
  Lines 71 to 73 of \<open>run\<close>: the loop over the ranks \<open>0 .. size - 1\<close>, subtracting
  \<open>elapsed\<close> from the entity at each rank. A rank without an entity would make the
  assignment throw, which is the result \<open>None\<close>.
\<close>

fun decrease :: "number \<Rightarrow> nat list \<Rightarrow> 'w sys \<Rightarrow> 'w sys option" where
  "decrease elapsed [] s = Some s"
| "decrease elapsed (i # ranks) s =
     (case peek s i of
        None \<Rightarrow> None
      | Some e \<Rightarrow>
          decrease elapsed ranks (s\<lparr>waitTime := (waitTime s)(e := fsub (waitTime s e) elapsed)\<rparr>))"

text \<open>
  Lines 83 to 86: the \<open>waitTime\<close> of the entity is forced to \<open>oldWaitTime + 1\<close> when
  \<open>update()\<close> has left it less than or equal to \<open>oldWaitTime\<close>.
\<close>

definition enforce :: "ent \<Rightarrow> number \<Rightarrow> 'w sys \<Rightarrow> 'w sys" where
  "enforce entity oldWaitTime s =
     (if fle (waitTime s entity) oldWaitTime
      then s\<lparr>waitTime := (waitTime s)(entity := fadd oldWaitTime (num 1))\<rparr>
      else s)"

text \<open>
  Lines 79 to 86: the body of the activation loop for the entity just peeked. The
  entity is popped, its \<open>waitTime\<close> is remembered, \<open>update()\<close> runs, and the
  \<open>waitTime\<close> is enforced.
\<close>

definition activate1 :: "'w update \<Rightarrow> ent \<Rightarrow> 'w sys \<Rightarrow> 'w sys" where
  "activate1 upd entity s =
     (let s1 = snd (pop s);
          oldWaitTime = waitTime s1 entity;
          s2 = upd entity s1
      in enforce entity oldWaitTime s2)"

text \<open>
  Lines 77 to 88: the activation loop, with the list \<open>updatedEntities\<close>. An \<open>update()\<close>
  may add entities to the queue, so the loop need not end: the result \<open>None\<close> is a
  run that does not return.
\<close>

partial_function (option) activate ::
  "'w update \<Rightarrow> 'w sys \<Rightarrow> ent list \<Rightarrow> ('w sys \<times> ent list) option" where
  "activate upd s updatedEntities =
     (case peek s 0 of
        None \<Rightarrow> Some (s, updatedEntities)
      | Some entity \<Rightarrow>
          if fle (waitTime s entity) (num 0)
          then activate upd (activate1 upd entity s) (updatedEntities @ [entity])
          else Some (s, updatedEntities))"

declare activate.simps [code]

text \<open>
  Lines 69 to 74: \<open>elapsed\<close> is the \<open>waitTime\<close> of the entity at the root of the heap;
  when it is positive it is subtracted from the \<open>waitTime\<close> of the entity at every rank.
  Reading the \<open>waitTime\<close> of no entity would throw: \<open>None\<close>.
\<close>

definition decreaseAll :: "'w sys \<Rightarrow> 'w sys option" where
  "decreaseAll s =
     (case peek s 0 of
        None \<Rightarrow> None
      | Some first \<Rightarrow>
          (let elapsed = waitTime s first
           in if flt (num 0) elapsed then decrease elapsed [0..<heap_size s] s else Some s))"

text \<open>
  \<open>run\<close>, with the final state and the list \<open>updatedEntities\<close> of the entities whose
  \<open>update()\<close> was invoked, in the order of invocation. \<open>None\<close> is a run that does
  not return normally.
\<close>

definition run_updated :: "'w update \<Rightarrow> 'w sys \<Rightarrow> ('w sys \<times> ent list) option" where
  "run_updated upd s =
     (if paused s \<or> isEmpty s then Some (s, [])
      else (case decreaseAll s of
              None \<Rightarrow> None
            | Some s1 \<Rightarrow>
                (case activate upd s1 [] of
                   None \<Rightarrow> None
                 | Some (s2, updatedEntities) \<Rightarrow>
                     Some (pushAll updatedEntities s2, updatedEntities))))"

definition run :: "'w update \<Rightarrow> 'w sys \<Rightarrow> 'w sys option" where
  "run upd s = map_option fst (run_updated upd s)"

text \<open>
  Repeated calls of \<open>run\<close>: the final state, and for each call in turn the list of the
  entities it updated.
\<close>

fun runs_updated :: "'w update \<Rightarrow> nat \<Rightarrow> 'w sys \<Rightarrow> ('w sys \<times> ent list list) option" where
  "runs_updated upd 0 s = Some (s, [])"
| "runs_updated upd (Suc n) s =
     (case run_updated upd s of
        None \<Rightarrow> None
      | Some (s1, updatedEntities) \<Rightarrow>
          (case runs_updated upd n s1 of
             None \<Rightarrow> None
           | Some (s2, rest) \<Rightarrow> Some (s2, updatedEntities # rest)))"

definition runs :: "'w update \<Rightarrow> nat \<Rightarrow> 'w sys \<Rightarrow> 'w sys option" where
  "runs upd n s = map_option fst (runs_updated upd n s)"

section \<open>Properties of queues and of updates\<close>

text \<open>The heap property of an array under a key function: no node is below its parent.\<close>

definition is_heap :: "('a \<Rightarrow> number) \<Rightarrow> 'a list \<Rightarrow> bool" where
  "is_heap score xs = (\<forall>i\<in>{1..<length xs}. fle (score (xs ! parent i)) (score (xs ! i)))"

text \<open>The heap property everywhere but between node \<open>n\<close> and its children.\<close>

definition heap_except :: "('a \<Rightarrow> number) \<Rightarrow> nat \<Rightarrow> 'a list \<Rightarrow> bool" where
  "heap_except score n xs =
     (\<forall>i\<in>{1..<length xs}.
        (parent i \<noteq> n \<longrightarrow> fle (score (xs ! parent i)) (score (xs ! i))) \<and>
        (parent i = n \<longrightarrow> 0 < n \<longrightarrow> fle (score (xs ! parent n)) (score (xs ! i))))"

text \<open>The heap property everywhere but between node \<open>n\<close> and its parent.\<close>

definition heap_except_up :: "('a \<Rightarrow> number) \<Rightarrow> nat \<Rightarrow> 'a list \<Rightarrow> bool" where
  "heap_except_up score n xs =
     (\<forall>i\<in>{1..<length xs}.
        (i \<noteq> n \<longrightarrow> fle (score (xs ! parent i)) (score (xs ! i))) \<and>
        (parent i = n \<longrightarrow> 0 < n \<longrightarrow> fle (score (xs ! parent n)) (score (xs ! i))))"

text \<open>No key of the array is \<open>NaN\<close>.\<close>

definition no_NaN :: "('a \<Rightarrow> number) \<Rightarrow> 'a list \<Rightarrow> bool" where
  "no_NaN score xs = (\<forall>x\<in>set xs. score x \<noteq> NaN)"

text \<open>
  The scheduler's queue is a heap under the current wait times, none of which is
  \<open>NaN\<close>.
\<close>

definition heap_inv :: "'w sys \<Rightarrow> bool" where
  "heap_inv s = (is_heap (waitTime s) (content s) \<and> no_NaN (waitTime s) (content s))"

text \<open>An \<open>update()\<close> that adds no entity to the queue.\<close>

definition no_insert :: "'w update \<Rightarrow> bool" where
  "no_insert upd = (\<forall>e s. mset (content (upd e s)) \<subseteq># mset (content s))"

text \<open>An \<open>update()\<close> that neither adds an entity to the queue nor removes one.\<close>

definition keeps_entities :: "'w update \<Rightarrow> bool" where
  "keeps_entities upd = (\<forall>e s. mset (content (upd e s)) = mset (content s))"

text \<open>An \<open>update()\<close> that leaves the queue as it is.\<close>

definition keeps_queue :: "'w update \<Rightarrow> bool" where
  "keeps_queue upd = (\<forall>e s. content (upd e s) = content s)"

text \<open>An \<open>update()\<close> that writes the \<open>waitTime\<close> of no entity but its own.\<close>

definition own_waitTime :: "'w update \<Rightarrow> bool" where
  "own_waitTime upd = (\<forall>e s e'. e' \<noteq> e \<longrightarrow> waitTime (upd e s) e' = waitTime s e')"

text \<open>The entities of the queue that are due: their \<open>waitTime\<close> is at most 0.\<close>

definition eligible :: "'w sys \<Rightarrow> ent list" where
  "eligible s = filter (\<lambda>e. fle (waitTime s e) (num 0)) (content s)"

text \<open>
  The state after \<open>update()\<close> has been invoked once on each entity of a list, in
  turn: the entity is popped, updated, and its \<open>waitTime\<close> enforced against the one it
  had when it was popped.
\<close>

definition invoked :: "'w update \<Rightarrow> ent list \<Rightarrow> 'w sys \<Rightarrow> 'w sys" where
  "invoked upd us s =
     fold (\<lambda>e s. enforce e (waitTime (snd (pop s)) e) (upd e (snd (pop s)))) us s"

text \<open>
  The number \<open>m\<close> is the minimum \<open>waitTime\<close> present in the queue: the \<open>waitTime\<close> of an
  entity of the queue, and less than or equal to the \<open>waitTime\<close> of every entity of the
  queue.
\<close>

definition minWaitTime :: "'w sys \<Rightarrow> number \<Rightarrow> bool" where
  "minWaitTime s m =
     ((\<exists>e\<in>set (content s). waitTime s e = m) \<and> (\<forall>e\<in>set (content s). fle m (waitTime s e)))"

text \<open>
  Invariants of the activation loop, for a queue \<open>c\<close> and a state \<open>s1\<close> at its start:
  the updated entities and the queue hold each entity once, share none, and all come
  from \<open>c\<close>;
\<close>

definition split_inv :: "ent list \<Rightarrow> 'w sys \<Rightarrow> ent list \<Rightarrow> bool" where
  "split_inv c s us =
     (distinct us \<and> distinct (content s) \<and> set us \<inter> set (content s) = {} \<and>
      set us \<union> set (content s) \<subseteq> set c)"

text \<open>no entity but the updated ones has a new \<open>waitTime\<close>, and these were due at the start;\<close>

definition waits_inv :: "'w sys \<Rightarrow> 'w sys \<Rightarrow> ent list \<Rightarrow> bool" where
  "waits_inv s1 s us =
     ((\<forall>e. e \<notin> set us \<longrightarrow> waitTime s e = waitTime s1 e) \<and>
      (\<forall>e\<in>set us. fle (waitTime s1 e) (num 0)))"

text \<open>the queue is a heap, and no entity of the start has left but the updated ones.\<close>

definition due_inv :: "'w sys \<Rightarrow> 'w sys \<Rightarrow> ent list \<Rightarrow> bool" where
  "due_inv s1 s us = (heap_inv s \<and> set (content s1) \<subseteq> set us \<union> set (content s))"

text \<open>
  A weaker invariant, for queues that may hold an entity twice: the updated entities
  and the queue are together within the queue of the start, an entity that is due was
  due at the start, and so were the updated entities.
\<close>

definition bound_inv :: "'w sys \<Rightarrow> 'w sys \<Rightarrow> ent list \<Rightarrow> bool" where
  "bound_inv s1 s us =
     (mset us + mset (content s) \<subseteq># mset (content s1) \<and>
      (\<forall>e. fle (waitTime s e) (num 0) \<longrightarrow> fle (waitTime s1 e) (num 0)) \<and>
      (\<forall>e\<in>set us. fle (waitTime s1 e) (num 0)))"

text \<open>The wait times of some entities, for stating results of scenarios.\<close>

definition waitTimes :: "ent list \<Rightarrow> 'w sys \<Rightarrow> number list" where
  "waitTimes es s = map (waitTime s) es"

section \<open>Scenarios\<close>

text \<open>
  A new scheduler (empty queue, not paused) in a world where entity \<open>e\<close> has the
  \<open>e\<close>-th wait time of the list, an integer.
\<close>

definition fresh :: "int list \<Rightarrow> unit sys" where
  "fresh ws = \<lparr>waitTime = (\<lambda>e. if e < length ws then num (ws ! e) else num 0),
               content = [], paused = False, world = ()\<rparr>"

text \<open>Entities whose \<open>update()\<close> sets their own \<open>waitTime\<close> to \<open>w\<close>.\<close>

definition setsWaitTime :: "int \<Rightarrow> unit update" where
  "setsWaitTime w e s = s\<lparr>waitTime := (waitTime s)(e := num w)\<rparr>"

text \<open>
  Entities whose \<open>update()\<close> sets their own \<open>waitTime\<close> to \<open>w\<close> and then the
  \<open>waitTime\<close> of the entity \<open>b\<close> to \<open>v\<close>.
\<close>

definition setsBoth :: "int \<Rightarrow> ent \<Rightarrow> int \<Rightarrow> unit update" where
  "setsBoth w b v e s = s\<lparr>waitTime := (waitTime s)(e := num w, b := num v)\<rparr>"

text \<open>The scenario of the spec: A (entity 0) waits 3, B (entity 1) waits 1, C (entity 2) waits 5.\<close>

definition scenarioABC :: "unit sys" where
  "scenarioABC = add 2 (add 1 (add 0 (fresh [3, 1, 5])))"

text \<open>Entities 0 and 1 both wait 2, entity 2 waits 5: the first two are due together.\<close>

definition scenarioTie :: "unit sys" where
  "scenarioTie = add 2 (add 1 (add 0 (fresh [2, 2, 5])))"

text \<open>Entity 0 is overdue by 2 (its \<open>waitTime\<close> is negative), entity 1 waits 5.\<close>

definition scenarioOverdue :: "unit sys" where
  "scenarioOverdue = add 1 (add 0 (fresh [- 2, 5]))"

text \<open>Entity 0 waits 3; entity 1 waits 10 and has been added twice.\<close>

definition scenarioTwice :: "unit sys" where
  "scenarioTwice = add 1 (add 1 (add 0 (fresh [3, 10])))"

text \<open>Entity 0 waits 1, entity 1 waits 5.\<close>

definition scenarioPair :: "unit sys" where
  "scenarioPair = add 1 (add 0 (fresh [1, 5]))"

text \<open>A single entity that is overdue by 2 to the power 54.\<close>

definition scenarioFar :: "unit sys" where
  "scenarioFar = add 0 (fresh [- (2 ^ 54)])"

text \<open>Entity 0 waits 1, entity 1 waits 2 to the power 54.\<close>

definition scenarioLong :: "unit sys" where
  "scenarioLong = add 1 (add 0 (fresh [1, 2 ^ 54]))"

section \<open>Lemmas on numbers\<close>

subsection \<open>Bit lengths\<close>

lemma bits_0 [simp]: "bits 0 = 0"
  by (simp add: bits.simps)

lemma bits_pos: "0 < n \<Longrightarrow> 0 < bits n"
  by (simp add: bits.simps [of n])

lemma bits_bounds: "0 < n \<Longrightarrow> 2 ^ (bits n - 1) \<le> n \<and> n < 2 ^ bits n"
proof (induction n rule: bits.induct)
  case (1 n)
  show ?case
  proof (cases "n div 2 = 0")
    case True
    with "1.prems" have "n = Suc 0" by (simp add: div_eq_0_iff)
    then show ?thesis by (simp add: bits.simps [of "Suc 0"])
  next
    case False
    with "1.IH" "1.prems"
    have ih: "2 ^ (bits (n div 2) - 1) \<le> n div 2" "n div 2 < 2 ^ bits (n div 2)"
      by auto
    have b: "bits n = Suc (bits (n div 2))" using "1.prems" by (simp add: bits.simps [of n])
    have pos: "0 < bits (n div 2)" using False by (simp add: bits_pos)
    then have "(2::nat) ^ (bits n - 1) = 2 * 2 ^ (bits (n div 2) - 1)"
      by (cases "bits (n div 2)") (simp_all add: b)
    with ih show ?thesis by (simp add: b) arith
  qed
qed

lemma bits_le_iff: "bits n \<le> k \<longleftrightarrow> n < 2 ^ k"
proof (cases "n = 0")
  case True
  then show ?thesis by simp
next
  case False
  then have b: "2 ^ (bits n - 1) \<le> n" "n < 2 ^ bits n" using bits_bounds [of n] by simp_all
  show ?thesis
  proof
    assume "bits n \<le> k"
    then have "(2::nat) ^ bits n \<le> 2 ^ k" by (simp add: power_increasing)
    with b(2) show "n < 2 ^ k" by (rule order.strict_trans2)
  next
    assume n: "n < 2 ^ k"
    show "bits n \<le> k"
    proof (rule ccontr)
      assume "\<not> bits n \<le> k"
      then have "k \<le> bits n - 1" by simp
      then have "(2::nat) ^ k \<le> 2 ^ (bits n - 1)" by (simp add: power_increasing)
      then have "2 ^ k \<le> n" using b(1) by (rule order.trans)
      with n show False by simp
    qed
  qed
qed

lemma bits_mono: "a \<le> b \<Longrightarrow> bits a \<le> bits b"
proof -
  assume "a \<le> b"
  moreover have "b < 2 ^ bits b" using bits_le_iff [of b "bits b"] by simp
  ultimately have "a < 2 ^ bits b" by (rule order.strict_trans1)
  then show ?thesis by (simp only: bits_le_iff)
qed

lemma bits_unique:
  assumes "0 < k" "2 ^ (k - 1) \<le> n" "n < 2 ^ k"
  shows "bits n = k"
proof -
  from assms(3) have 1: "bits n \<le> k" by (simp add: bits_le_iff)
  have "\<not> bits n \<le> k - 1" using assms(2) by (simp add: bits_le_iff)
  with 1 show ?thesis by simp
qed

lemma bits_scale: "0 < a \<Longrightarrow> bits (a * 2 ^ j) = bits a + j"
proof -
  assume a: "0 < a"
  then have b: "2 ^ (bits a - 1) \<le> a" "a < 2 ^ bits a" and p: "0 < bits a"
    using bits_bounds [of a] bits_pos [of a] by simp_all
  have "(2::nat) ^ (bits a + j - 1) = 2 ^ (bits a - 1) * 2 ^ j"
    using p by (simp add: power_add [symmetric])
  then have 1: "2 ^ (bits a + j - 1) \<le> a * 2 ^ j" using b(1) by simp
  have 2: "a * 2 ^ j < 2 ^ (bits a + j)" using b(2) by (simp add: power_add)
  show ?thesis by (rule bits_unique [OF _ 1 2]) (simp add: p)
qed

subsection \<open>Rounding to 53 significant bits\<close>

lemma rnd_small: "a < 2 ^ 53 \<Longrightarrow> rnd a = a"
proof -
  assume "a < 2 ^ 53"
  then have "bits a - 53 = 0" using bits_le_iff [of a 53] by simp
  then show ?thesis by (simp add: rnd_def)
qed

lemma rnd_0 [simp]: "rnd 0 = 0"
  by (simp add: rnd_def)

lemma rnd_scale: "rnd (a * 2 ^ j) = rnd a * 2 ^ j"
proof (cases "a = 0")
  case True
  then show ?thesis by simp
next
  case False
  then have a: "0 < a" by simp
  let ?k = "bits a - 53"
  show ?thesis
  proof (cases "bits a \<le> 53")
    case True
    then have "a < 2 ^ 53" by (simp add: bits_le_iff)
    then have ra: "rnd a = a" by (rule rnd_small)
    have k: "bits (a * 2 ^ j) - 53 \<le> j" using True a by (simp add: bits_scale)
    define k where "k = bits (a * 2 ^ j) - 53"
    from k have kj: "k \<le> j" by (simp add: k_def)
    have "(2::nat) ^ j = 2 ^ (j - k) * 2 ^ k" using kj by (simp add: power_add [symmetric])
    then have eq: "a * 2 ^ j = (a * 2 ^ (j - k)) * 2 ^ k" by simp
    have m: "(a * 2 ^ j) mod 2 ^ k = 0" by (subst eq) simp
    have d: "(a * 2 ^ j) div 2 ^ k * 2 ^ k = a * 2 ^ j" using m by (simp add: mod_0_imp_dvd)
    have "rnd (a * 2 ^ j) = (a * 2 ^ j) div 2 ^ k * 2 ^ k"
      unfolding rnd_def k_def [symmetric] Let_def using m by simp
    with d ra show ?thesis by simp
  next
    case False
    then have kk: "bits (a * 2 ^ j) - 53 = ?k + j" using a by (simp add: bits_scale)
    have p: "(2::nat) ^ (?k + j) = 2 ^ ?k * 2 ^ j" by (simp add: power_add)
    have dv: "(a * 2 ^ j) div (2 ^ ?k * 2 ^ j) = a div 2 ^ ?k" by simp
    have md: "(a * 2 ^ j) mod (2 ^ ?k * 2 ^ j) = (a mod 2 ^ ?k) * 2 ^ j"
      by (simp add: mult_mod_left mult.commute)
    show ?thesis
      unfolding rnd_def [of "a * 2 ^ j"] kk p dv md Let_def
      by (simp add: rnd_def Let_def algebra_simps)
  qed
qed


lemma rnd_step_mono:
  fixes a b p :: nat
  assumes "a \<le> b"
  shows "(if p < 2 * (a mod p) \<or> (2 * (a mod p) = p \<and> odd (a div p)) then a div p + 1 else a div p)
       \<le> (if p < 2 * (b mod p) \<or> (2 * (b mod p) = p \<and> odd (b div p)) then b div p + 1 else b div p)"
    (is "?f a \<le> ?f b")
proof (cases "a div p = b div p")
  case True
  have "a div p * p + a mod p \<le> b div p * p + b mod p"
    using assms by (simp only: div_mult_mod_eq)
  then have "b div p * p + a mod p \<le> b div p * p + b mod p" by (simp only: True)
  then have "a mod p \<le> b mod p" by linarith
  with True show ?thesis by auto
next
  case False
  from assms have "a div p \<le> b div p" by (rule div_le_mono)
  with False have "a div p + 1 \<le> b div p" by simp
  moreover have "?f a \<le> a div p + 1" by simp
  moreover have "b div p \<le> ?f b" by simp
  ultimately show ?thesis by (meson order.trans)
qed

lemma rnd_upper: "rnd a \<le> 2 ^ bits a"
proof -
  define k where "k = bits a - 53"
  define p :: nat where "p = 2 ^ k"
  have kb: "k \<le> bits a" by (simp add: k_def)
  have pw: "(2::nat) ^ bits a = 2 ^ (bits a - k) * p"
    using kb by (simp add: p_def power_add [symmetric])
  have "a < 2 ^ bits a" using bits_le_iff [of a "bits a"] by simp
  then have "a < 2 ^ (bits a - k) * p" by (simp only: pw)
  then have "a div p < 2 ^ (bits a - k)"
    by (simp add: p_def less_mult_imp_div_less)
  then have "(if p < 2 * (a mod p) \<or> (2 * (a mod p) = p \<and> odd (a div p)) then a div p + 1
      else a div p) \<le> 2 ^ (bits a - k)" by simp
  then have "(if p < 2 * (a mod p) \<or> (2 * (a mod p) = p \<and> odd (a div p)) then a div p + 1
      else a div p) * p \<le> 2 ^ (bits a - k) * p" by (rule mult_le_mono1)
  then show ?thesis by (simp add: rnd_def Let_def k_def [symmetric] p_def [symmetric] pw)
qed

lemma rnd_lower: "0 < a \<Longrightarrow> 2 ^ (bits a - 1) \<le> rnd a"
proof -
  assume a: "0 < a"
  define k where "k = bits a - 53"
  define p :: nat where "p = 2 ^ k"
  define q' where "q' = (if p < 2 * (a mod p) \<or> (2 * (a mod p) = p \<and> odd (a div p))
      then a div p + 1 else a div p)"
  have r: "rnd a = q' * p" by (simp add: rnd_def Let_def k_def p_def q'_def)
  have pos: "0 < bits a" using a by (rule bits_pos)
  have kb: "k \<le> bits a - 1" using pos by (simp add: k_def)
  have pw: "(2::nat) ^ (bits a - 1) = 2 ^ (bits a - 1 - k) * p"
    using kb by (simp add: p_def power_add [symmetric])
  have "2 ^ (bits a - 1) \<le> a" using bits_bounds [OF a] by simp
  then have "2 ^ (bits a - 1 - k) * p \<le> a" by (simp only: pw)
  then have "2 ^ (bits a - 1 - k) \<le> a div p"
    by (simp add: p_def less_eq_div_iff_mult_less_eq)
  moreover have "a div p \<le> q'" by (simp add: q'_def)
  ultimately have "2 ^ (bits a - 1 - k) \<le> q'" by (rule order.trans)
  then have "2 ^ (bits a - 1 - k) * p \<le> q' * p" by (rule mult_le_mono1)
  then show ?thesis by (simp only: r pw)
qed

lemma rnd_mono: "a \<le> b \<Longrightarrow> rnd a \<le> rnd b"
proof -
  assume ab: "a \<le> b"
  show ?thesis
  proof (cases "a = 0")
    case True
    then show ?thesis by simp
  next
    case False
    then have a: "0 < a" and b: "0 < b" using ab by simp_all
    show ?thesis
    proof (cases "bits a - 53 = bits b - 53")
      case True
      from rnd_step_mono [OF ab, of "2 ^ (bits b - 53)"] show ?thesis
        by (simp add: rnd_def Let_def True)
    next
      case False
      from ab have "bits a \<le> bits b" by (rule bits_mono)
      with False have "bits a \<le> bits b - 1" by arith
      then have "(2::nat) ^ bits a \<le> 2 ^ (bits b - 1)" by (simp add: power_increasing)
      with rnd_upper [of a] rnd_lower [OF b] show ?thesis by (meson order.trans)
    qed
  qed
qed

lemma rnd_pos: "0 < a \<Longrightarrow> 0 < rnd a"
  using rnd_lower [of a] by (metis less_le_trans zero_less_numeral zero_less_power)

lemma round53_small: "\<bar>n\<bar> < 2 ^ 53 \<Longrightarrow> round53 n = n"
proof -
  assume "\<bar>n\<bar> < 2 ^ 53"
  then have "nat \<bar>n\<bar> < 2 ^ 53" by (simp add: nat_less_iff)
  then have "rnd (nat \<bar>n\<bar>) = nat \<bar>n\<bar>" by (rule rnd_small)
  then show ?thesis by (simp add: round53_def mult_sgn_abs)
qed

lemma round53_minus: "round53 (- n) = - round53 n"
  by (simp add: round53_def)

lemma round53_scale: "round53 (n * 2 ^ j) = round53 n * 2 ^ j"
proof -
  have "nat \<bar>n * 2 ^ j\<bar> = nat \<bar>n\<bar> * 2 ^ j"
    by (simp add: abs_mult nat_mult_distrib nat_power_eq)
  then show ?thesis
    by (simp add: round53_def rnd_scale sgn_mult)
qed

lemma round53_nonneg: "0 \<le> n \<Longrightarrow> round53 n = int (rnd (nat n))"
  by (cases "n = 0") (simp_all add: round53_def)

lemma round53_mono: "a \<le> b \<Longrightarrow> round53 a \<le> round53 b"
proof -
  assume ab: "a \<le> b"
  consider "0 \<le> a" | "b \<le> 0" | "a < 0" "0 < b" by linarith
  then show ?thesis
  proof cases
    case 1
    with ab have "nat a \<le> nat b" "0 \<le> b" by simp_all
    with 1 rnd_mono [of "nat a" "nat b"] show ?thesis by (simp add: round53_nonneg)
  next
    case 2
    with ab have "nat (- b) \<le> nat (- a)" "0 \<le> - a" "0 \<le> - b" by simp_all
    with rnd_mono [of "nat (- b)" "nat (- a)"]
    have "round53 (- b) \<le> round53 (- a)" by (simp add: round53_nonneg)
    then show ?thesis by (simp add: round53_minus)
  next
    case 3
    then have "round53 a \<le> 0" "0 \<le> round53 b" by (simp_all add: round53_def sgn_if)
    then show ?thesis by simp
  qed
qed

subsection \<open>The order of the numbers\<close>

lemma fle_NaN [simp]: "\<not> fle x NaN" "\<not> fle NaN y"
  by (cases x; simp) simp

lemma flt_NaN [simp]: "\<not> flt x NaN" "\<not> flt NaN y"
  by (cases x; simp) simp

lemma fle_NegInf [simp]: "fle NegInf x \<longleftrightarrow> x \<noteq> NaN"
  by (cases x) simp_all

lemma fle_PosInf [simp]: "fle x PosInf \<longleftrightarrow> x \<noteq> NaN"
  by (cases x) simp_all

lemma fle_refl: "x \<noteq> NaN \<Longrightarrow> fle x x"
  by (cases x) simp_all

lemma fle_trans: "fle x y \<Longrightarrow> fle y z \<Longrightarrow> fle x z"
  by (cases x; cases y; cases z) simp_all

lemma fle_antisym: "fle x y \<Longrightarrow> fle y x \<Longrightarrow> x = y"
  by (cases x; cases y) simp_all

lemma flt_imp_fle: "flt x y \<Longrightarrow> fle x y"
  by (cases x; cases y) simp_all

lemma not_flt_iff: "x \<noteq> NaN \<Longrightarrow> y \<noteq> NaN \<Longrightarrow> \<not> flt x y \<longleftrightarrow> fle y x"
  by (cases x; cases y) auto

lemma flt_iff: "flt x y \<longleftrightarrow> fle x y \<and> \<not> fle y x"
  by (cases x; cases y) auto

lemma flt_trans: "flt x y \<Longrightarrow> flt y z \<Longrightarrow> flt x z"
  by (cases x; cases y; cases z) simp_all

lemma flt_fle_imp_fle: "flt x y \<Longrightarrow> fle y z \<Longrightarrow> fle x z"
  by (cases x; cases y; cases z) simp_all

lemma flt_fle_trans: "flt x y \<Longrightarrow> fle y z \<Longrightarrow> flt x z"
  by (cases x; cases y; cases z) simp_all

lemma fle_flt_trans: "fle x y \<Longrightarrow> flt y z \<Longrightarrow> flt x z"
  by (cases x; cases y; cases z) simp_all

lemma fle_not_NaN: "fle x y \<Longrightarrow> x \<noteq> NaN \<and> y \<noteq> NaN"
  by (cases x; cases y) simp_all

subsection \<open>Integers as numbers\<close>

lemma scale_pos: "0 < scale"
  by (simp add: scale_def del: power_numeral)

lemma huge_scale: "huge = 2 ^ 1024 * scale"
  unfolding huge_def scale_def power_add [symmetric] by simp

lemma num_inject [simp]: "num a = num b \<longleftrightarrow> a = b"
  using scale_pos by (simp add: num_def)

lemma num_not_special [simp]:
  "num a \<noteq> NaN" "num a \<noteq> PosInf" "num a \<noteq> NegInf"
  by (simp_all add: num_def)

lemma fle_num [simp]: "fle (num a) (num b) \<longleftrightarrow> a \<le> b"
  using scale_pos by (simp add: num_def)

lemma flt_num [simp]: "flt (num a) (num b) \<longleftrightarrow> a < b"
  using scale_pos by (simp add: num_def)

lemma fround_num_round:
  assumes "\<bar>round53 v\<bar> < 2 ^ 1024"
  shows "fround (v * scale) = num (round53 v)"
proof -
  have r: "round53 (v * scale) = round53 v * scale"
    unfolding scale_def by (rule round53_scale)
  have "\<bar>round53 v * scale\<bar> < huge"
    using assms scale_pos unfolding huge_scale by (simp add: abs_mult)
  then have "\<not> huge \<le> round53 v * scale" "\<not> round53 v * scale \<le> - huge" by linarith+
  then show ?thesis by (simp add: fround_def r num_def Let_def)
qed

lemma fround_num:
  assumes "\<bar>v\<bar> < 2 ^ 53"
  shows "fround (v * scale) = num v"
proof -
  have r: "round53 v = v" using assms by (rule round53_small)
  have "(2::int) ^ 53 \<le> 2 ^ 1024" by (rule power_increasing) simp_all
  with assms have "\<bar>round53 v\<bar> < 2 ^ 1024" unfolding r by linarith
  from fround_num_round [OF this] show ?thesis by (simp only: r)
qed

lemma fadd_num_round:
  "\<bar>round53 (a + b)\<bar> < 2 ^ 1024 \<Longrightarrow> fadd (num a) (num b) = num (round53 (a + b))"
  using fround_num_round [of "a + b"] by (simp add: num_def algebra_simps)

lemma fsub_num_round:
  "\<bar>round53 (a - b)\<bar> < 2 ^ 1024 \<Longrightarrow> fsub (num a) (num b) = num (round53 (a - b))"
  using fround_num_round [of "a - b"] by (simp add: fsub_def num_def algebra_simps)

lemma fadd_num: "\<bar>a + b\<bar> < 2 ^ 53 \<Longrightarrow> fadd (num a) (num b) = num (a + b)"
  using fround_num [of "a + b"] by (simp add: num_def algebra_simps)

lemma fsub_num: "\<bar>a - b\<bar> < 2 ^ 53 \<Longrightarrow> fsub (num a) (num b) = num (a - b)"
  using fround_num [of "a - b"] by (simp add: fsub_def num_def algebra_simps)

subsection \<open>Subtraction keeps the order\<close>

lemma fround_not_NaN [simp]: "fround n \<noteq> NaN"
  by (simp add: fround_def Let_def)

lemma huge_pos: "0 < huge"
  by (simp add: huge_def del: power_numeral)

lemma fround_mono: "a \<le> b \<Longrightarrow> fle (fround a) (fround b)"
  using round53_mono [of a b] huge_pos by (auto simp: fround_def Let_def)

lemma fsub_Fin_mono: "fle x y \<Longrightarrow> fle (fsub x (Fin k)) (fsub y (Fin k))"
  by (cases x; cases y) (simp_all add: fsub_def fround_mono fle_refl)

lemma fsub_Fin_not_NaN: "x \<noteq> NaN \<Longrightarrow> fsub x (Fin k) \<noteq> NaN"
  by (cases x) (simp_all add: fsub_def)

lemma fsub_PosInf: "x \<noteq> NaN \<Longrightarrow> x \<noteq> NegInf \<Longrightarrow> fsub x PosInf = (if x = PosInf then NaN else NegInf)"
  by (cases x) (simp_all add: fsub_def)

section \<open>Lemmas on the heap operations\<close>

lemma length_swap [simp]: "length (swap i j xs) = length xs"
  by (simp add: swap_def)

lemma nth_swap:
  "i < length xs \<Longrightarrow> j < length xs \<Longrightarrow>
   swap i j xs ! k = (if k = j then xs ! i else if k = i then xs ! j else xs ! k)"
  by (auto simp: swap_def nth_list_update)

lemma mset_swap_list: "i < length xs \<Longrightarrow> j < length xs \<Longrightarrow> mset (swap i j xs) = mset xs"
  by (simp add: swap_def mset_swap)

lemma no_NaN_swap:
  "i < length xs \<Longrightarrow> j < length xs \<Longrightarrow> no_NaN score (swap i j xs) = no_NaN score xs"
  using mset_swap_list [of i xs j, THEN mset_eq_setD] by (simp add: no_NaN_def)

lemma no_NaN_nth: "no_NaN score xs \<Longrightarrow> k < length xs \<Longrightarrow> score (xs ! k) \<noteq> NaN"
  by (simp add: no_NaN_def)

lemma parent_eq_iff: "0 < i \<Longrightarrow> parent i = n \<longleftrightarrow> i = 2 * n + 1 \<or> i = 2 * n + 2"
  by (auto simp: parent_def)

lemma parent_less: "0 < i \<Longrightarrow> parent i < i"
  by (auto simp: parent_def)

lemma minChild_child:
  "minChild score n xs \<noteq> n \<Longrightarrow>
     parent (minChild score n xs) = n \<and> 0 < minChild score n xs \<and>
     minChild score n xs < length xs \<and>
     flt (score (xs ! minChild score n xs)) (score (xs ! n))"
  by (auto simp: minChild_def Let_def parent_def split: if_splits intro: flt_trans)

lemma minChild_least:
  assumes nn: "no_NaN score xs" and i: "0 < i" "parent i = n" "i < length xs"
  shows "fle (score (xs ! minChild score n xs)) (score (xs ! i))"
proof -
  have n: "n < length xs" using i parent_less [of i] by simp
  note nan = no_NaN_nth [OF nn]
  from i(1,2) have "i = 2 * n + 1 \<or> i = 2 * n + 2" by (simp add: parent_eq_iff)
  then show ?thesis
  proof
    assume c: "i = 2 * n + 1"
    with i(3) nan [of i] nan [OF n] nan [of "2 * n + 2"] show ?thesis
      by (auto simp: minChild_def Let_def not_flt_iff fle_refl
          intro: flt_imp_fle flt_fle_imp_fle)
  next
    assume c: "i = 2 * n + 2"
    with i(3) nan [of i] nan [OF n] nan [of "2 * n + 1"] show ?thesis
      by (auto simp: minChild_def Let_def not_flt_iff fle_refl
          intro: flt_imp_fle flt_fle_imp_fle)
  qed
qed

lemma mset_bubbleUp: "n < length xs \<Longrightarrow> mset (bubbleUp score n xs) = mset xs"
proof (induction score n xs rule: bubbleUp.induct)
  case (1 score n xs)
  show ?case
  proof (cases "0 < n \<and> flt (score (xs ! n)) (score (xs ! parent n))")
    case True
    then have "parent n < n" by (simp add: parent_less)
    with "1.IH" [OF True] "1.prems" True show ?thesis
      by (simp add: bubbleUp.simps [of score n xs] mset_swap_list)
  next
    case False
    then show ?thesis by (auto simp: bubbleUp.simps [of score n xs])
  qed
qed

lemma mset_sinkDown: "n < length xs \<Longrightarrow> mset (sinkDown score n xs) = mset xs"
proof (induction score n xs rule: sinkDown.induct)
  case (1 score n xs)
  show ?case
  proof (cases "minChild score n xs = n")
    case True
    then show ?thesis by (simp add: sinkDown.simps [of score n xs])
  next
    case False
    from minChild_child [OF False] have ml: "minChild score n xs < length xs" by simp
    with "1.IH" [OF False] "1.prems" False show ?thesis
      by (simp add: sinkDown.simps [of score n xs] mset_swap_list)
  qed
qed

subsection \<open>Sift-down restores the heap property\<close>

lemma heap_except_done:
  assumes "heap_except score n xs" "minChild score n xs = n" "no_NaN score xs"
  shows "is_heap score xs"
  unfolding is_heap_def
proof
  fix i assume i: "i \<in> {1..<length xs}"
  show "fle (score (xs ! parent i)) (score (xs ! i))"
  proof (cases "parent i = n")
    case True
    with i minChild_least [OF assms(3), of i n] assms(2) show ?thesis by simp
  next
    case False
    with assms(1) i show ?thesis by (auto simp: heap_except_def)
  qed
qed

lemma heap_except_step:
  assumes h: "heap_except score n xs" and m: "minChild score n xs \<noteq> n" and n: "n < length xs"
    and nn: "no_NaN score xs"
  shows "heap_except score (minChild score n xs) (swap n (minChild score n xs) xs)"
proof -
  let ?m = "minChild score n xs"
  from minChild_child [OF m] have pm: "parent ?m = n" and m0: "0 < ?m" and ml: "?m < length xs"
    and lt: "flt (score (xs ! ?m)) (score (xs ! n))" by auto
  have nm: "n < ?m" using pm m0 parent_less [of ?m] by simp
  have sw: "\<And>k. swap n ?m xs ! k = (if k = ?m then xs ! n else if k = n then xs ! ?m else xs ! k)"
    using nth_swap [OF n ml] by simp
  show ?thesis
    unfolding heap_except_def
  proof (intro ballI conjI impI)
    fix i assume i: "i \<in> {1..<length (swap n ?m xs)}" and p: "parent i \<noteq> ?m"
    from i have i0: "0 < i" and il: "i < length xs" by auto
    have pi: "parent i < i" using parent_less [OF i0] .
    show "fle (score (swap n ?m xs ! parent i)) (score (swap n ?m xs ! i))"
    proof (cases "parent i = n")
      case True
      have "fle (score (xs ! ?m)) (score (xs ! i))" using minChild_least [OF nn i0 True il] .
      moreover have "fle (score (xs ! ?m)) (score (xs ! n))" using lt by (rule flt_imp_fle)
      ultimately show ?thesis using True pi nm by (simp add: sw)
    next
      case False
      with h i0 il have le: "fle (score (xs ! parent i)) (score (xs ! i))"
        by (simp add: heap_except_def)
      show ?thesis
      proof (cases "i = n")
        case True
        with h m0 ml pm i0 have "fle (score (xs ! parent n)) (score (xs ! ?m))"
          by (simp add: heap_except_def)
        with True pi nm p show ?thesis by (simp add: sw)
      next
        case in': False
        have "i \<noteq> ?m" using False pm by auto
        with in' False p le show ?thesis by (simp add: sw)
      qed
    qed
  next
    fix i assume i: "i \<in> {1..<length (swap n ?m xs)}" and p: "parent i = ?m" and "0 < ?m"
    from i have i0: "0 < i" and il: "i < length xs" by auto
    have pi: "parent i < i" using parent_less [OF i0] .
    from p nm have "parent i \<noteq> n" by simp
    with h i0 il have "fle (score (xs ! parent i)) (score (xs ! i))"
      by (simp add: heap_except_def)
    with p have "fle (score (xs ! ?m)) (score (xs ! i))" by simp
    with pi p nm pm show "fle (score (swap n ?m xs ! parent ?m)) (score (swap n ?m xs ! i))"
      by (simp add: sw)
  qed
qed

lemma is_heap_sinkDown:
  "heap_except score n xs \<Longrightarrow> n < length xs \<Longrightarrow> no_NaN score xs \<Longrightarrow>
   is_heap score (sinkDown score n xs)"
proof (induction score n xs rule: sinkDown.induct)
  case (1 score n xs)
  show ?case
  proof (cases "minChild score n xs = n")
    case True
    with "1.prems" show ?thesis
      by (simp add: sinkDown.simps [of score n xs] heap_except_done)
  next
    case False
    from minChild_child [OF False] have ml: "minChild score n xs < length xs" by simp
    have nn: "no_NaN score (swap n (minChild score n xs) xs)"
      using "1.prems"(2,3) ml by (simp add: no_NaN_swap)
    from "1.IH" [OF False heap_except_step [OF "1.prems"(1) False "1.prems"(2,3)] _ nn] ml False
    show ?thesis by (simp add: sinkDown.simps [of score n xs])
  qed
qed

lemma is_heap_root:
  "is_heap score xs \<Longrightarrow> no_NaN score xs \<Longrightarrow> i < length xs \<Longrightarrow>
   fle (score (xs ! 0)) (score (xs ! i))"
proof (induction i rule: less_induct)
  case (less i)
  show ?case
  proof (cases "i = 0")
    case True
    with less.prems show ?thesis by (simp add: fle_refl no_NaN_nth)
  next
    case False
    then have pi: "parent i < i" by (simp add: parent_less)
    from less.prems False have "fle (score (xs ! parent i)) (score (xs ! i))"
      by (simp add: is_heap_def)
    moreover from less.IH [OF pi less.prems(1,2)] pi less.prems(3)
    have "fle (score (xs ! 0)) (score (xs ! parent i))" by simp
    ultimately show ?thesis by (rule fle_trans [rotated])
  qed
qed

subsection \<open>Sift-up restores the heap property\<close>

lemma heap_except_up_done:
  assumes "heap_except_up score n xs"
    "\<not> (0 < n \<and> flt (score (xs ! n)) (score (xs ! parent n)))" "no_NaN score xs"
  shows "is_heap score xs"
  unfolding is_heap_def
proof
  fix i assume i: "i \<in> {1..<length xs}"
  show "fle (score (xs ! parent i)) (score (xs ! i))"
  proof (cases "i = n")
    case True
    from i have "parent i < length xs" using parent_less [of i] by simp
    with True i assms(2) no_NaN_nth [OF assms(3)] show ?thesis
      by (auto simp: not_flt_iff)
  next
    case False
    with assms(1) i show ?thesis by (simp add: heap_except_up_def)
  qed
qed

lemma heap_except_up_step:
  assumes h: "heap_except_up score n xs" and n0: "0 < n" and n: "n < length xs"
    and lt: "flt (score (xs ! n)) (score (xs ! parent n))"
  shows "heap_except_up score (parent n) (swap n (parent n) xs)"
proof -
  let ?p = "parent n"
  have pn: "?p < n" using parent_less [OF n0] .
  then have pl: "?p < length xs" using n by simp
  have sw: "\<And>k. swap n ?p xs ! k = (if k = ?p then xs ! n else if k = n then xs ! ?p else xs ! k)"
    using nth_swap [OF n pl] by simp
  have up: "fle (score (xs ! parent i)) (score (xs ! i))" if "0 < i" "i < length xs" "i \<noteq> n" for i
    using h that by (simp add: heap_except_up_def)
  show ?thesis
    unfolding heap_except_up_def
  proof (intro ballI conjI impI)
    fix i assume i: "i \<in> {1..<length (swap n ?p xs)}" and ip: "i \<noteq> ?p"
    from i have i0: "0 < i" and il: "i < length xs" by auto
    have pi: "parent i < i" using parent_less [OF i0] .
    show "fle (score (swap n ?p xs ! parent i)) (score (swap n ?p xs ! i))"
    proof (cases "i = n")
      case True
      with flt_imp_fle [OF lt] pn show ?thesis by (simp add: sw)
    next
      case False
      note inn = False
      show ?thesis
      proof (cases "parent i = n")
        case True
        with h i0 il n0 have "fle (score (xs ! ?p)) (score (xs ! i))"
          by (simp add: heap_except_up_def)
        with True inn ip pn show ?thesis by (simp add: sw)
      next
        case False
        note pin = False
        show ?thesis
        proof (cases "parent i = ?p")
          case True
          with up [OF i0 il inn] have "fle (score (xs ! ?p)) (score (xs ! i))" by simp
          with lt have "fle (score (xs ! n)) (score (xs ! i))" by (rule flt_fle_imp_fle)
          with True inn ip show ?thesis by (simp add: sw)
        next
          case False
          with up [OF i0 il inn] pin inn ip show ?thesis by (simp add: sw)
        qed
      qed
    qed
  next
    fix i assume i: "i \<in> {1..<length (swap n ?p xs)}" and ip: "parent i = ?p" and p0: "0 < ?p"
    from i have i0: "0 < i" and il: "i < length xs" by auto
    have ppn: "parent ?p < ?p" using parent_less [OF p0] .
    have 1: "fle (score (xs ! parent ?p)) (score (xs ! ?p))"
      using up [OF p0 pl] pn by simp
    have "fle (score (xs ! parent ?p)) (score (swap n ?p xs ! i))"
    proof (cases "i = n")
      case True
      with 1 pn show ?thesis by (simp add: sw)
    next
      case False
      have "i \<noteq> ?p" using ip parent_less [OF i0] by auto
      moreover from up [OF i0 il False] ip have "fle (score (xs ! ?p)) (score (xs ! i))" by simp
      with 1 have "fle (score (xs ! parent ?p)) (score (xs ! i))" by (rule fle_trans)
      ultimately show ?thesis using False by (simp add: sw)
    qed
    with ppn pn show "fle (score (swap n ?p xs ! parent ?p)) (score (swap n ?p xs ! i))"
      by (simp add: sw)
  qed
qed

lemma is_heap_bubbleUp:
  "heap_except_up score n xs \<Longrightarrow> n < length xs \<Longrightarrow> no_NaN score xs \<Longrightarrow>
   is_heap score (bubbleUp score n xs)"
proof (induction score n xs rule: bubbleUp.induct)
  case (1 score n xs)
  show ?case
  proof (cases "0 < n \<and> flt (score (xs ! n)) (score (xs ! parent n))")
    case True
    then have pl: "parent n < length xs" using parent_less [of n] "1.prems"(2) by simp
    have nn: "no_NaN score (swap n (parent n) xs)"
      using "1.prems"(2,3) pl by (simp add: no_NaN_swap)
    from True have n0: "0 < n" and lt: "flt (score (xs ! n)) (score (xs ! parent n))"
      by simp_all
    from "1.IH" [OF True heap_except_up_step [OF "1.prems"(1) n0 "1.prems"(2) lt] _ nn] pl True
    show ?thesis by (simp add: bubbleUp.simps [of score n xs])
  next
    case False
    with heap_except_up_done [OF "1.prems"(1) False "1.prems"(3)] show ?thesis
      by (auto simp: bubbleUp.simps [of score n xs])
  qed
qed

lemma heap_except_up_append:
  assumes "is_heap score xs"
  shows "heap_except_up score (length xs) (xs @ [e])"
  unfolding heap_except_up_def
proof (intro ballI conjI impI)
  fix i assume i: "i \<in> {1..<length (xs @ [e])}" and "i \<noteq> length xs"
  then have i0: "0 < i" and il: "i < length xs" by auto
  then have "parent i < length xs" using parent_less [of i] by simp
  with assms i0 il show "fle (score ((xs @ [e]) ! parent i)) (score ((xs @ [e]) ! i))"
    by (simp add: is_heap_def nth_append)
next
  fix i assume i: "i \<in> {1..<length (xs @ [e])}" and p: "parent i = length xs"
    and "0 < length xs"
  from i have "0 < i" "i \<le> length xs" by auto
  with p parent_less [of i] have False by simp
  then show "fle (score ((xs @ [e]) ! parent (length xs))) (score ((xs @ [e]) ! i))" ..
qed

subsection \<open>The queue operations on the state\<close>

lemma push_fields [simp]:
  "waitTime (push e s) = waitTime s" "paused (push e s) = paused s" "world (push e s) = world s"
  by (simp_all add: push_def)

lemma mset_content_push [simp]: "mset (content (push e s)) = add_mset e (mset (content s))"
  by (simp add: push_def mset_bubbleUp)

lemma pushAll_fields [simp]:
  "waitTime (pushAll es s) = waitTime s" "paused (pushAll es s) = paused s"
  "world (pushAll es s) = world s"
  by (induction es arbitrary: s) (simp_all add: pushAll_def)

lemma mset_content_pushAll [simp]:
  "mset (content (pushAll es s)) = mset es + mset (content s)"
  by (induction es arbitrary: s) (simp_all add: pushAll_def)

lemma pop_fields [simp]:
  "waitTime (snd (pop s)) = waitTime s" "paused (snd (pop s)) = paused s"
  "world (snd (pop s)) = world s"
  by (simp_all add: pop_def split: list.splits)

lemma mset_content_pop:
  "content s = x # rest \<Longrightarrow> mset (content (snd (pop s))) = mset rest"
proof -
  assume c: "content s = x # rest"
  show ?thesis
  proof (cases "rest = []")
    case True
    with c show ?thesis by (simp add: pop_def)
  next
    case False
    then have "rest = butlast rest @ [last rest]" by simp
    then have "mset rest = mset (butlast rest @ [last rest])" by (rule arg_cong)
    then have "mset (last rest # butlast rest) = mset rest" by simp
    with c False show ?thesis by (simp add: pop_def mset_sinkDown)
  qed
qed

lemma peek_root: "peek s 0 = Some e \<longleftrightarrow> (\<exists>rest. content s = e # rest)"
  by (cases "content s") (auto simp: peek_def)

lemma peek_None: "peek s 0 = None \<longleftrightarrow> content s = []"
  by (simp add: peek_def)

lemma heap_except_root:
  assumes "is_heap score (x # rest)" "rest \<noteq> []"
  shows "heap_except score 0 (last rest # butlast rest)"
  unfolding heap_except_def
proof (intro ballI conjI impI)
  fix i assume i: "i \<in> {1..<length (last rest # butlast rest)}" and p: "parent i \<noteq> 0"
  from i have i0: "0 < i" and il: "i < length rest" by auto
  from p have p0: "0 < parent i" by simp
  have pi: "parent i < i" using parent_less [OF i0] .
  have "fle (score ((x # rest) ! parent i)) (score ((x # rest) ! i))"
    using assms(1) i0 il by (simp add: is_heap_def)
  moreover have "(last rest # butlast rest) ! i = (x # rest) ! i"
    using i0 il by (simp add: nth_Cons' nth_butlast)
  moreover have "(last rest # butlast rest) ! parent i = (x # rest) ! parent i"
    using p0 pi il by (simp add: nth_Cons' nth_butlast)
  ultimately show "fle (score ((last rest # butlast rest) ! parent i))
      (score ((last rest # butlast rest) ! i))" by simp
qed simp

lemma no_NaN_mset: "mset ys \<subseteq># mset xs \<Longrightarrow> no_NaN score xs \<Longrightarrow> no_NaN score ys"
  using set_mset_mono [of "mset ys" "mset xs"] by (auto simp: no_NaN_def)

lemma heap_inv_pop: "heap_inv s \<Longrightarrow> heap_inv (snd (pop s))"
proof (cases "content s")
  case Nil
  assume "heap_inv s"
  with Nil show ?thesis by (simp add: pop_def)
next
  case (Cons x rest)
  assume h: "heap_inv s"
  show ?thesis
  proof (cases "rest = []")
    case True
    with Cons show ?thesis by (simp add: pop_def heap_inv_def is_heap_def no_NaN_def)
  next
    case False
    from h Cons have ih: "is_heap (waitTime s) (x # rest)" and nn: "no_NaN (waitTime s) (x # rest)"
      by (simp_all add: heap_inv_def)
    have "set (last rest # butlast rest) = set rest"
      using False by (metis append_butlast_last_id list.simps(15) rotate1.simps(2) set_rotate1)
    with nn have nn': "no_NaN (waitTime s) (last rest # butlast rest)"
      by (simp add: no_NaN_def)
    from is_heap_sinkDown [OF heap_except_root [OF ih False] _ nn']
    have 1: "is_heap (waitTime s) (sinkDown (waitTime s) 0 (last rest # butlast rest))" by simp
    have "mset (content (snd (pop s))) = mset rest" using Cons by (rule mset_content_pop)
    then have "mset (content (snd (pop s))) \<subseteq># mset (x # rest)" by simp
    from no_NaN_mset [OF this nn] have 2: "no_NaN (waitTime s) (content (snd (pop s)))" .
    from 1 2 Cons False show ?thesis by (simp add: pop_def heap_inv_def)
  qed
qed

lemma is_heap_map:
  assumes g: "\<And>a b. a \<in> set xs \<Longrightarrow> b \<in> set xs \<Longrightarrow> fle (f a) (f b) \<Longrightarrow> fle (g a) (g b)"
    and h: "is_heap f xs"
  shows "is_heap g xs"
  unfolding is_heap_def
proof
  fix i assume i: "i \<in> {1..<length xs}"
  then have "parent i < length xs" using parent_less [of i] by simp
  then have 1: "xs ! parent i \<in> set xs" by simp
  from i have 2: "xs ! i \<in> set xs" by simp
  from h i have "fle (f (xs ! parent i)) (f (xs ! i))" by (simp add: is_heap_def)
  with 1 2 show "fle (g (xs ! parent i)) (g (xs ! i))" by (rule g)
qed

lemma is_heap_same:
  "(\<And>e. e \<in> set xs \<Longrightarrow> g e = f e) \<Longrightarrow> is_heap f xs \<Longrightarrow> is_heap g xs"
  by (rule is_heap_map [of xs f g]) simp_all

lemma heap_inv_push: "heap_inv s \<Longrightarrow> waitTime s e \<noteq> NaN \<Longrightarrow> heap_inv (push e s)"
proof -
  assume h: "heap_inv s" and e: "waitTime s e \<noteq> NaN"
  then have nn: "no_NaN (waitTime s) (content s @ [e])" by (simp add: heap_inv_def no_NaN_def)
  from h have "is_heap (waitTime s) (content s)" by (simp add: heap_inv_def)
  from is_heap_bubbleUp [OF heap_except_up_append [OF this] _ nn]
  have 1: "is_heap (waitTime s) (content (push e s))" by (simp add: push_def)
  have "mset (content (push e s)) \<subseteq># mset (content s @ [e])" by simp
  from no_NaN_mset [OF this nn] have "no_NaN (waitTime s) (content (push e s))" .
  with 1 show ?thesis by (simp add: heap_inv_def)
qed

lemma heap_inv_pushAll:
  "heap_inv s \<Longrightarrow> no_NaN (waitTime s) es \<Longrightarrow> heap_inv (pushAll es s)"
proof (induction es arbitrary: s)
  case Nil
  then show ?case by (simp add: pushAll_def)
next
  case (Cons e es)
  from Cons.prems have "heap_inv (push e s)" by (simp add: heap_inv_push no_NaN_def)
  moreover from Cons.prems have "no_NaN (waitTime (push e s)) es" by (simp add: no_NaN_def)
  ultimately have "heap_inv (pushAll es (push e s))" by (rule Cons.IH)
  then show ?case by (simp add: pushAll_def)
qed

lemma heap_inv_fresh: "heap_inv (fresh ws)"
  by (simp add: heap_inv_def is_heap_def no_NaN_def fresh_def)

subsection \<open>The minimum of the queue\<close>

lemma root_is_min:
  assumes "heap_inv s" "peek s 0 = Some first"
  shows "minWaitTime s (waitTime s first)"
proof -
  from assms(2) have ne: "content s \<noteq> []" and f: "first = content s ! 0"
    by (auto simp: peek_def split: if_splits)
  from assms(1) have h: "is_heap (waitTime s) (content s)"
    and nn: "no_NaN (waitTime s) (content s)" by (simp_all add: heap_inv_def)
  have le: "fle (waitTime s first) (waitTime s e)" if "e \<in> set (content s)" for e
  proof -
    from that obtain i where i: "i < length (content s)" "e = content s ! i"
      by (auto simp: in_set_conv_nth)
    from is_heap_root [OF h nn i(1)] f i(2) show ?thesis by simp
  qed
  have mem: "first \<in> set (content s)" using ne f by simp
  with le show ?thesis unfolding minWaitTime_def by blast
qed

lemma minWaitTime_unique: "minWaitTime s m \<Longrightarrow> minWaitTime s m' \<Longrightarrow> m = m'"
  unfolding minWaitTime_def by (metis fle_antisym)

subsection \<open>The decrement\<close>

lemma distinct_count_list: "distinct xs \<Longrightarrow> count_list xs e = (if e \<in> set xs then 1 else 0)"
  by (induction xs) auto

lemma funpow_fsub:
  "((\<lambda>w. fsub w k) ^^ n) (fsub x k) = fsub (((\<lambda>w. fsub w k) ^^ n) x) k"
  using funpow_swap1 [of "\<lambda>w. fsub w k" n x] by simp

lemma decrease_ranks:
  "\<forall>i\<in>set ranks. i < length (content s) \<Longrightarrow>
   \<exists>s1. decrease elapsed ranks s = Some s1 \<and> content s1 = content s \<and>
        paused s1 = paused s \<and> world s1 = world s \<and>
        (\<forall>e. waitTime s1 e =
           ((\<lambda>w. fsub w elapsed) ^^ count_list (map ((!) (content s)) ranks) e) (waitTime s e))"
proof (induction ranks arbitrary: s)
  case Nil
  then show ?case by simp
next
  case (Cons i ranks)
  let ?e = "content s ! i"
  let ?s = "s\<lparr>waitTime := (waitTime s)(?e := fsub (waitTime s ?e) elapsed)\<rparr>"
  from Cons.prems have "\<forall>i\<in>set ranks. i < length (content ?s)" by simp
  from Cons.IH [OF this] obtain s1 where
    s1: "decrease elapsed ranks ?s = Some s1" "content s1 = content s"
        "paused s1 = paused s" "world s1 = world s"
        "\<forall>e. waitTime s1 e =
           ((\<lambda>w. fsub w elapsed) ^^ count_list (map ((!) (content s)) ranks) e) (waitTime ?s e)"
    by auto
  from Cons.prems have pk: "peek s i = Some ?e" by (simp add: peek_def)
  have "\<forall>e. waitTime s1 e =
     ((\<lambda>w. fsub w elapsed) ^^ count_list (map ((!) (content s)) (i # ranks)) e) (waitTime s e)"
    using s1(5) by (simp add: funpow_fsub)
  with s1 pk show ?case by simp
qed

lemma decreaseAll_nonpositive:
  "peek s 0 = Some first \<Longrightarrow> \<not> flt (num 0) (waitTime s first) \<Longrightarrow> decreaseAll s = Some s"
  by (simp add: decreaseAll_def)

lemma decreaseAll_positive:
  assumes "peek s 0 = Some first" "flt (num 0) (waitTime s first)" "distinct (content s)"
  shows "\<exists>s1. decreaseAll s = Some s1 \<and> content s1 = content s \<and>
        paused s1 = paused s \<and> world s1 = world s \<and>
        (\<forall>e. waitTime s1 e =
           (if e \<in> set (content s) then fsub (waitTime s e) (waitTime s first)
            else waitTime s e))"
proof -
  have "\<forall>i\<in>set [0..<heap_size s]. i < length (content s)"
    by (simp add: heap_size_def)
  from decrease_ranks [OF this, of "waitTime s first"] assms
  show ?thesis
    by (auto simp: decreaseAll_def heap_size_def map_nth distinct_count_list)
qed

lemma decreaseAll_total:
  assumes "\<not> isEmpty s"
  shows "\<exists>s1. decreaseAll s = Some s1 \<and> content s1 = content s \<and>
              paused s1 = paused s \<and> world s1 = world s"
proof -
  from assms obtain first where f: "peek s 0 = Some first"
    by (auto simp: isEmpty_def peek_def)
  have "\<forall>i\<in>set [0..<heap_size s]. i < length (content s)" by (simp add: heap_size_def)
  from decrease_ranks [OF this, of "waitTime s first"] obtain s1 where
    "decrease (waitTime s first) [0..<heap_size s] s = Some s1" "content s1 = content s"
    "paused s1 = paused s" "world s1 = world s"
    by blast
  with f show ?thesis
    by (cases "flt (num 0) (waitTime s first)") (simp_all add: decreaseAll_def)
qed

text \<open>
  The decrement of a heap that holds each entity once: every \<open>waitTime\<close> of the queue
  has the elapsed time subtracted, when that is positive, and the queue is a heap
  again unless the elapsed time is infinite.
\<close>

lemma decreaseAll_heap:
  assumes ne: "\<not> isEmpty s" and h: "heap_inv s" and d: "distinct (content s)"
  shows "\<exists>first s1. peek s 0 = Some first \<and> minWaitTime s (waitTime s first) \<and>
           decreaseAll s = Some s1 \<and> content s1 = content s \<and>
           paused s1 = paused s \<and> world s1 = world s \<and>
           (\<forall>e. waitTime s1 e =
              (if e \<in> set (content s) \<and> flt (num 0) (waitTime s first)
               then fsub (waitTime s e) (waitTime s first) else waitTime s e)) \<and>
           (waitTime s first \<noteq> PosInf \<longrightarrow> heap_inv s1)"
proof -
  from ne obtain first where f: "peek s 0 = Some first"
    by (auto simp: isEmpty_def peek_def)
  note m = root_is_min [OF h f]
  show ?thesis
  proof (cases "flt (num 0) (waitTime s first)")
    case False
    then have "decreaseAll s = Some s" using decreaseAll_nonpositive [OF f] by simp
    with False h f m show ?thesis by simp
  next
    case True
    from decreaseAll_positive [OF f True d] obtain s1 where
      s1: "decreaseAll s = Some s1" "content s1 = content s" "paused s1 = paused s"
          "world s1 = world s"
          "\<forall>e. waitTime s1 e =
             (if e \<in> set (content s) then fsub (waitTime s e) (waitTime s first)
              else waitTime s e)"
      by blast
    have "heap_inv s1" if fin: "waitTime s first \<noteq> PosInf"
    proof -
      from True fin obtain k where k: "waitTime s first = Fin k"
        by (cases "waitTime s first") (simp_all add: num_def)
      from h have ih: "is_heap (waitTime s) (content s)"
        and nn: "no_NaN (waitTime s) (content s)" by (simp_all add: heap_inv_def)
      have "is_heap (waitTime s1) (content s)"
        by (rule is_heap_map [OF _ ih]) (simp add: s1(5) k fsub_Fin_mono)
      moreover have "no_NaN (waitTime s1) (content s)"
        using nn by (auto simp: no_NaN_def s1(5) k fsub_Fin_not_NaN)
      ultimately show ?thesis by (simp add: heap_inv_def s1(2))
    qed
    with s1 True f m show ?thesis by simp
  qed
qed

subsection \<open>The activation loop\<close>

lemma content_enforce [simp]: "content (enforce e old s) = content s"
  by (simp add: enforce_def)

lemma content_activate1: "content (activate1 upd e s) = content (upd e (snd (pop s)))"
  by (simp add: activate1_def Let_def)

lemma no_insert_size:
  "no_insert upd \<Longrightarrow> length (content (upd e s)) \<le> length (content s)"
proof -
  assume "no_insert upd"
  then have "mset (content (upd e s)) \<subseteq># mset (content s)"
    by (simp add: no_insert_def)
  from size_mset_mono [OF this] show ?thesis by simp
qed

lemma length_content_pop:
  "content s = x # rest \<Longrightarrow> length (content (snd (pop s))) = length rest"
  using mset_content_pop [of s x rest] by (metis size_mset)

lemma activate1_shrinks:
  assumes "no_insert upd" "peek s 0 = Some e"
  shows "length (content (activate1 upd e s)) < length (content s)"
proof -
  from assms(2) obtain rest where c: "content s = e # rest" by (auto simp: peek_root)
  from no_insert_size [OF assms(1), of e "snd (pop s)"] length_content_pop [OF c] c
  show ?thesis by (simp add: content_activate1)
qed

lemma invoked_Cons: "invoked upd (e # us) s = invoked upd us (activate1 upd e s)"
  by (simp add: invoked_def activate1_def Let_def)

text \<open>
  The rule of the loop: without insertions it ends; an invariant of its body holds at the
  end; at the end no entity at the root of the queue is due; and the final state is
  the one after an invocation of \<open>update()\<close> on each of the entities added to the list
  of the updated entities, in turn.
\<close>

lemma activate_rule:
  assumes ni: "no_insert upd"
    and step: "\<And>s us e. I s us \<Longrightarrow> peek s 0 = Some e \<Longrightarrow> fle (waitTime s e) (num 0) \<Longrightarrow>
                 I (activate1 upd e s) (us @ [e])"
  shows "I s us \<Longrightarrow>
         \<exists>s' new. activate upd s us = Some (s', us @ new) \<and> I s' (us @ new) \<and>
                  s' = invoked upd new s \<and>
                  (\<forall>e. peek s' 0 = Some e \<longrightarrow> \<not> fle (waitTime s' e) (num 0))"
proof (induction "length (content s)" arbitrary: s us rule: less_induct)
  case less
  show ?case
  proof (cases "peek s 0")
    case None
    have "activate upd s us = Some (s, us @ [])" using None by (subst activate.simps) simp
    moreover have "s = invoked upd [] s" by (simp add: invoked_def)
    ultimately show ?thesis using less.prems None by (metis append_Nil2 option.distinct(1))
  next
    case (Some e)
    show ?thesis
    proof (cases "fle (waitTime s e) (num 0)")
      case False
      have "activate upd s us = Some (s, us @ [])"
        using Some False by (subst activate.simps) simp
      moreover have "s = invoked upd [] s" by (simp add: invoked_def)
      ultimately show ?thesis using less.prems Some False
        by (metis append_Nil2 option.inject)
    next
      case True
      from less.hyps [OF activate1_shrinks [OF ni Some] step [OF less.prems Some True]]
      obtain s' new where
        a: "activate upd (activate1 upd e s) (us @ [e]) = Some (s', (us @ [e]) @ new)"
        and i: "I s' ((us @ [e]) @ new)" and t: "s' = invoked upd new (activate1 upd e s)"
        and r: "\<forall>e. peek s' 0 = Some e \<longrightarrow> \<not> fle (waitTime s' e) (num 0)"
        by blast
      have "activate upd s us = Some (s', us @ (e # new))"
        using Some True a by (subst activate.simps) simp
      moreover have "I s' (us @ (e # new))" using i by simp
      moreover have "s' = invoked upd (e # new) s" using t by (simp only: invoked_Cons)
      ultimately show ?thesis using r by blast
    qed
  qed
qed

subsection \<open>One activation\<close>

lemma keeps_queue_no_insert: "keeps_queue upd \<Longrightarrow> no_insert upd"
  by (simp add: keeps_queue_def no_insert_def)

lemma keeps_entities_no_insert: "keeps_entities upd \<Longrightarrow> no_insert upd"
  by (simp add: keeps_entities_def no_insert_def)

lemma keeps_queue_entities: "keeps_queue upd \<Longrightarrow> keeps_entities upd"
  by (simp add: keeps_queue_def keeps_entities_def)

lemma waitTime_activate1_other:
  "own_waitTime upd \<Longrightarrow> e' \<noteq> e \<Longrightarrow> waitTime (activate1 upd e s) e' = waitTime s e'"
  by (simp add: activate1_def enforce_def Let_def own_waitTime_def)

lemma content_activate1_sub:
  assumes "no_insert upd" "content s = e # rest"
  shows "mset (content (activate1 upd e s)) \<subseteq># mset rest"
proof -
  from assms(1) have "mset (content (upd e (snd (pop s)))) \<subseteq># mset (content (snd (pop s)))"
    by (simp add: no_insert_def)
  with mset_content_pop [OF assms(2)] show ?thesis by (simp add: content_activate1)
qed

lemma content_activate1_keep:
  "keeps_queue upd \<Longrightarrow> content (activate1 upd e s) = content (snd (pop s))"
  by (simp add: content_activate1 keeps_queue_def)

lemma distinct_activate1:
  assumes "no_insert upd" "content s = e # rest" "distinct (content s)"
  shows "distinct (content (activate1 upd e s)) \<and> e \<notin> set (content (activate1 upd e s)) \<and>
         set (content (activate1 upd e s)) \<subseteq> set rest"
proof -
  let ?c = "content (activate1 upd e s)"
  have sub: "mset ?c \<subseteq># mset rest" using content_activate1_sub [OF assms(1,2)] .
  from assms(2,3) have d: "distinct rest" and e: "e \<notin> set rest" by simp_all
  from sub have s: "set ?c \<subseteq> set rest" by (metis set_mset_mono set_mset_mset)
  have "distinct ?c"
    unfolding distinct_count_atmost_1
  proof
    fix a
    from d have "count (mset rest) a \<le> 1" by (simp add: distinct_count_atmost_1)
    with mset_subset_eq_count [OF sub, of a] have le: "count (mset ?c) a \<le> 1" by simp
    show "count (mset ?c) a = (if a \<in> set ?c then 1 else 0)"
    proof (cases "a \<in> set ?c")
      case True
      from count_mset_gt_0 [OF True] le have "count (mset ?c) a = 1" by linarith
      with True show ?thesis by simp
    next
      case False
      then show ?thesis by simp
    qed
  qed
  with s e show ?thesis by auto
qed

lemma heap_inv_activate1:
  assumes k: "keeps_queue upd" and o: "own_waitTime upd"
    and c: "content s = e # rest" and d: "distinct (content s)" and h: "heap_inv s"
  shows "heap_inv (activate1 upd e s)"
proof -
  let ?s = "activate1 upd e s"
  from distinct_activate1 [OF keeps_queue_no_insert [OF k] c d]
  have e: "e \<notin> set (content ?s)" by simp
  have same: "waitTime ?s e' = waitTime s e'" if "e' \<in> set (content ?s)" for e'
  proof -
    from that e have "e' \<noteq> e" by blast
    then show ?thesis by (rule waitTime_activate1_other [OF o])
  qed
  from heap_inv_pop [OF h] have "is_heap (waitTime s) (content ?s)"
    and nn: "no_NaN (waitTime s) (content ?s)"
    by (simp_all add: heap_inv_def content_activate1_keep [OF k])
  from this(1) have "is_heap (waitTime ?s) (content ?s)"
    by (rule is_heap_same [rotated]) (rule same)
  moreover from nn same have "no_NaN (waitTime ?s) (content ?s)" by (simp add: no_NaN_def)
  ultimately show ?thesis by (simp only: heap_inv_def)
qed

subsection \<open>A rule for \<open>run\<close>\<close>

lemma run_updated_rule:
  assumes ni: "no_insert upd"
    and act: "\<not> paused s" "\<not> isEmpty s"
    and dec: "decreaseAll s = Some s1"
    and init: "I s1 []"
    and step: "\<And>s us e. I s us \<Longrightarrow> peek s 0 = Some e \<Longrightarrow> fle (waitTime s e) (num 0) \<Longrightarrow>
                 I (activate1 upd e s) (us @ [e])"
  shows "\<exists>s2 us. activate upd s1 [] = Some (s2, us) \<and> s2 = invoked upd us s1 \<and>
                 run_updated upd s = Some (pushAll us s2, us) \<and> I s2 us \<and>
                 (\<forall>e. peek s2 0 = Some e \<longrightarrow> \<not> fle (waitTime s2 e) (num 0))"
proof -
  from activate_rule [of upd I, OF ni step init] obtain s2 us where
    a: "activate upd s1 [] = Some (s2, us)" "I s2 us" "s2 = invoked upd us s1"
    "\<forall>e. peek s2 0 = Some e \<longrightarrow> \<not> fle (waitTime s2 e) (num 0)"
    by auto
  from a(1) act dec have "run_updated upd s = Some (pushAll us s2, us)"
    by (simp add: run_updated_def)
  with a show ?thesis by blast
qed

subsection \<open>Invariants of the activation loop\<close>

lemma split_inv_step:
  assumes ni: "no_insert upd" and i: "split_inv c s us" and p: "peek s 0 = Some e"
  shows "split_inv c (activate1 upd e s) (us @ [e])"
proof -
  from p obtain rest where c: "content s = e # rest" by (auto simp: peek_root)
  from i have d: "distinct (content s)" by (simp add: split_inv_def)
  from distinct_activate1 [OF ni c d]
  have "distinct (content (activate1 upd e s))" "e \<notin> set (content (activate1 upd e s))"
    "set (content (activate1 upd e s)) \<subseteq> set rest" by simp_all
  with i c show ?thesis by (auto simp: split_inv_def)
qed

lemma waits_inv_step:
  assumes o: "own_waitTime upd" and i: "split_inv c s us" and w: "waits_inv s1 s us"
    and p: "peek s 0 = Some e" and due: "fle (waitTime s e) (num 0)"
  shows "waits_inv s1 (activate1 upd e s) (us @ [e])"
proof -
  from p obtain rest where c: "content s = e # rest" by (auto simp: peek_root)
  with i have "e \<notin> set us" by (auto simp: split_inv_def)
  with w due have "fle (waitTime s1 e) (num 0)" by (simp add: waits_inv_def)
  moreover have "waitTime (activate1 upd e s) e' = waitTime s1 e'"
    if "e' \<notin> set (us @ [e])" for e'
  proof -
    from that have "e' \<noteq> e" "e' \<notin> set us" by simp_all
    with w waitTime_activate1_other [OF o, of e' e s] show ?thesis
      by (simp add: waits_inv_def)
  qed
  ultimately show ?thesis using w by (simp add: waits_inv_def)
qed

lemma due_inv_step:
  assumes k: "keeps_queue upd" and o: "own_waitTime upd" and i: "split_inv c s us"
    and u: "due_inv s1 s us" and p: "peek s 0 = Some e"
  shows "due_inv s1 (activate1 upd e s) (us @ [e])"
proof -
  from p obtain rest where c: "content s = e # rest" by (auto simp: peek_root)
  from i have d: "distinct (content s)" by (simp add: split_inv_def)
  from u have h: "heap_inv s" by (simp add: due_inv_def)
  have "set (content (activate1 upd e s)) = set rest"
    using mset_content_pop [OF c] content_activate1_keep [OF k, of e s]
    by (metis set_mset_mset)
  with u c heap_inv_activate1 [OF k o c d h] show ?thesis by (auto simp: due_inv_def)
qed

lemma heap_none_due:
  assumes "heap_inv s" "\<forall>e. peek s 0 = Some e \<longrightarrow> \<not> fle (waitTime s e) (num 0)"
    "e \<in> set (content s)"
  shows "\<not> fle (waitTime s e) (num 0)"
proof
  assume le: "fle (waitTime s e) (num 0)"
  from assms(3) obtain first where f: "peek s 0 = Some first"
    by (cases "content s") (auto simp: peek_def)
  from root_is_min [OF assms(1) f] assms(3) have "fle (waitTime s first) (waitTime s e)"
    by (simp add: minWaitTime_def)
  from fle_trans [OF this le] assms(2) f show False by simp
qed

subsection \<open>A run that is neither paused nor empty\<close>

lemma run_active:
  assumes ni: "no_insert upd" and act: "\<not> paused s" "\<not> isEmpty s"
    and d: "distinct (content s)"
  shows "\<exists>s1 s2 us. decreaseAll s = Some s1 \<and> content s1 = content s \<and>
           activate upd s1 [] = Some (s2, us) \<and> s2 = invoked upd us s1 \<and>
           run_updated upd s = Some (pushAll us s2, us) \<and>
           split_inv (content s) s2 us \<and>
           (own_waitTime upd \<longrightarrow> waits_inv s1 s2 us) \<and>
           (keeps_queue upd \<longrightarrow> own_waitTime upd \<longrightarrow> heap_inv s1 \<longrightarrow> due_inv s1 s2 us) \<and>
           (\<forall>e. peek s2 0 = Some e \<longrightarrow> \<not> fle (waitTime s2 e) (num 0))"
proof -
  from decreaseAll_total [OF act(2)] obtain s1 where
    s1: "decreaseAll s = Some s1" "content s1 = content s" by blast
  let ?I = "\<lambda>s' us. split_inv (content s) s' us \<and>
     (own_waitTime upd \<longrightarrow> waits_inv s1 s' us) \<and>
     (keeps_queue upd \<longrightarrow> own_waitTime upd \<longrightarrow> heap_inv s1 \<longrightarrow> due_inv s1 s' us)"
  have init: "?I s1 []"
    using d s1(2) by (simp add: split_inv_def waits_inv_def due_inv_def)
  have step: "?I (activate1 upd e s') (us @ [e])"
    if "?I s' us" "peek s' 0 = Some e" "fle (waitTime s' e) (num 0)" for s' us e
    using that split_inv_step [OF ni, of "content s" s' us e]
      waits_inv_step [of upd "content s" s' us s1 e]
      due_inv_step [of upd "content s" s' us s1 e]
    by blast
  from run_updated_rule [of upd s s1 ?I, OF ni act s1(1) init step] s1
  show ?thesis by blast
qed

subsection \<open>The bound on the updated entities\<close>

lemma bound_inv_step:
  assumes ni: "no_insert upd" and o: "own_waitTime upd" and b: "bound_inv s1 s us"
    and p: "peek s 0 = Some e" and due: "fle (waitTime s e) (num 0)"
  shows "bound_inv s1 (activate1 upd e s) (us @ [e])"
proof -
  from p obtain rest where c: "content s = e # rest" by (auto simp: peek_root)
  from b have sub: "mset us + mset (content s) \<subseteq># mset (content s1)"
    and was: "\<And>e'. fle (waitTime s e') (num 0) \<Longrightarrow> fle (waitTime s1 e') (num 0)"
    and old: "\<forall>e'\<in>set us. fle (waitTime s1 e') (num 0)"
    by (simp_all add: bound_inv_def)
  have "mset (us @ [e]) + mset (content (activate1 upd e s)) \<subseteq># mset (us @ [e]) + mset rest"
    using content_activate1_sub [OF ni c] by simp
  also have "mset (us @ [e]) + mset rest = mset us + mset (content s)" by (simp add: c)
  finally have 1: "mset (us @ [e]) + mset (content (activate1 upd e s)) \<subseteq># mset (content s1)"
    using sub by (rule subset_mset.order_trans)
  from was [OF due] have e1: "fle (waitTime s1 e) (num 0)" .
  have 2: "fle (waitTime s1 e') (num 0)"
    if "fle (waitTime (activate1 upd e s) e') (num 0)" for e'
  proof (cases "e' = e")
    case True
    with e1 show ?thesis by simp
  next
    case False
    with that waitTime_activate1_other [OF o False, of s] show ?thesis by (simp add: was)
  qed
  from e1 old have 3: "\<forall>e'\<in>set (us @ [e]). fle (waitTime s1 e') (num 0)" by simp
  from 1 2 3 show ?thesis by (simp only: bound_inv_def) blast
qed

lemma bound_inv_eligible:
  assumes "bound_inv s1 s us"
  shows "mset us \<subseteq># mset (eligible s1)"
proof -
  from assms have sub: "mset us \<subseteq># mset (content s1)"
    and old: "\<forall>e\<in>set us. fle (waitTime s1 e) (num 0)"
    by (auto simp: bound_inv_def intro: subset_mset.order_trans [rotated])
  have "filter_mset (\<lambda>e. fle (waitTime s1 e) (num 0)) (mset us) = mset us"
    using old by (simp add: filter_mset_eq_conv)
  with multiset_filter_mono [OF sub, of "\<lambda>e. fle (waitTime s1 e) (num 0)"]
  show ?thesis by (simp add: eligible_def)
qed

section \<open>Evaluating scenarios\<close>

lemmas scenario_defs =
  fresh_def setsWaitTime_def
  add_def addAll_def pause_def resume_def
  push_def pushAll_def pop_def peek_def isEmpty_def heap_size_def
  run_def run_updated_def runs_def decreaseAll_def activate1_def enforce_def waitTimes_def
  swap_def parent_def minChild_def upt_rec
  bubbleUp.simps sinkDown.simps activate.simps
  fadd_num fsub_num Let_def

lemma is_heap_ranks:
  "is_heap score xs = list_all (\<lambda>i. fle (score (xs ! parent i)) (score (xs ! i))) [1..<length xs]"
  by (simp add: is_heap_def list_all_iff)

lemma heap_inv_scenarioABC: "heap_inv scenarioABC"
  by (simp add: scenario_defs scenarioABC_def heap_inv_def no_NaN_def is_heap_ranks)

lemma heap_inv_scenarioTie: "heap_inv scenarioTie"
  by (simp add: scenario_defs scenarioTie_def heap_inv_def no_NaN_def is_heap_ranks)

lemma heap_inv_scenarioOverdue: "heap_inv scenarioOverdue"
  by (simp add: scenario_defs scenarioOverdue_def heap_inv_def no_NaN_def is_heap_ranks)

lemma keeps_queue_setsWaitTime: "keeps_queue (setsWaitTime w)"
  by (simp add: keeps_queue_def setsWaitTime_def)

lemma own_waitTime_setsWaitTime: "own_waitTime (setsWaitTime w)"
  by (simp add: own_waitTime_def setsWaitTime_def)

text \<open>
  Beyond 53 bits a sum or a difference is rounded: 1 added to minus 2 to the power 54,
  or subtracted from 2 to the power 54, is lost.
\<close>

lemma fadd_beyond_53_bits:
  "fadd (num (- 18014398509481984)) (num 1) = num (- 18014398509481984)"
  using fadd_num_round [of "- 18014398509481984" 1]
  by (simp add: round53_def rnd_def bits.simps Let_def)

lemma fsub_beyond_53_bits:
  "fsub (num 18014398509481984) (num 1) = num 18014398509481984"
  using fsub_num_round [of 18014398509481984 1]
  by (simp add: round53_def rnd_def bits.simps Let_def)

lemma fle_PosInf_left: "fle PosInf x \<Longrightarrow> x = PosInf"
  by (cases x) simp_all

lemma decreaseAll_empty: "isEmpty s \<Longrightarrow> decreaseAll s = None"
  by (simp add: isEmpty_def peek_def decreaseAll_def)

section \<open>Properties of the scheduler\<close>

text \<open>
  C1, as the code has it. For every entity popped in the activation loop of \<open>run()\<close>
  (the entity \<open>e\<close> at the root of the queue, with a \<open>waitTime\<close> less than or equal to 0),
  the loop goes on from the state \<open>activate1 upd e s\<close> with \<open>e\<close> added to the updated
  entities. The \<open>waitTime\<close> of \<open>e\<close> when \<open>update()\<close> is invoked is the one it had when it
  was popped. If \<open>update()\<close> returns with a \<open>waitTime\<close> of \<open>e\<close> less than or equal to
  that one, the scheduler sets it to the double-precision sum of that \<open>waitTime\<close> and 1
  and changes nothing else. If \<open>update()\<close> has left a \<open>waitTime\<close> strictly above it, or
  the \<open>waitTime\<close> \<open>NaN\<close>, the scheduler leaves the state as \<open>update()\<close> returned it;
  there is no other case. The sum is exactly 1 more than the \<open>waitTime\<close> at invocation,
  and strictly above it, where that is an integer not below minus 2 to the power 53;
  the sum is minus infinity where that is minus infinity.
\<close>

theorem activation_enforces_waitTime:
  assumes "peek s 0 = Some e" and "fle (waitTime s e) (num 0)"
  shows "activate upd s us = activate upd (activate1 upd e s) (us @ [e]) \<and>
         waitTime (snd (pop s)) e = waitTime s e \<and>
         (fle (waitTime (upd e (snd (pop s))) e) (waitTime s e) \<longrightarrow>
            activate1 upd e s =
              (upd e (snd (pop s)))\<lparr>waitTime :=
                 (waitTime (upd e (snd (pop s))))(e := fadd (waitTime s e) (num 1))\<rparr>) \<and>
         (flt (waitTime s e) (waitTime (upd e (snd (pop s))) e) \<or>
          waitTime (upd e (snd (pop s))) e = NaN \<longrightarrow>
            activate1 upd e s = upd e (snd (pop s))) \<and>
         (fle (waitTime (upd e (snd (pop s))) e) (waitTime s e) \<or>
          flt (waitTime s e) (waitTime (upd e (snd (pop s))) e) \<or>
          waitTime (upd e (snd (pop s))) e = NaN) \<and>
         (\<forall>n. waitTime s e = num n \<longrightarrow> - (2 ^ 53) \<le> n \<longrightarrow>
            fadd (waitTime s e) (num 1) = num (n + 1) \<and>
            flt (waitTime s e) (fadd (waitTime s e) (num 1))) \<and>
         (waitTime s e = NegInf \<longrightarrow> fadd (waitTime s e) (num 1) = NegInf)"
proof -
  let ?old = "waitTime s e" and ?new = "waitTime (upd e (snd (pop s))) e"
  have 1: "activate upd s us = activate upd (activate1 upd e s) (us @ [e])"
    using assms by (subst activate.simps) simp
  have 2: "fadd ?old (num 1) = num (n + 1) \<and> flt ?old (fadd ?old (num 1))"
    if n: "?old = num n" and low: "- (2 ^ 53) \<le> n" for n
  proof -
    from assms(2) n have "n \<le> 0" by simp
    with low have "\<bar>n + 1\<bar> < 2 ^ 53" by simp
    then have "fadd (num n) (num 1) = num (n + 1)" by (rule fadd_num)
    with n show ?thesis by simp
  qed
  from assms(2) have old: "?old \<noteq> NaN" by (simp add: fle_not_NaN)
  have 3: "\<not> fle ?new ?old" if "flt ?old ?new \<or> ?new = NaN"
    using that by (auto simp: flt_iff)
  have 4: "fle ?new ?old \<or> flt ?old ?new \<or> ?new = NaN"
    using not_flt_iff [OF old, of ?new] by blast
  have 5: "fadd ?old (num 1) = NegInf" if "?old = NegInf"
    using that by (simp add: num_def)
  from 1 2 3 4 5 show ?thesis by (simp add: activate1_def enforce_def Let_def)
qed

theorem activation_enforces_waitTime_witness:
  "peek (add 1 (add 0 (fresh [0, 4]))) 0 = Some 0 \<and>
   fle (waitTime (add 1 (add 0 (fresh [0, 4]))) 0) (num 0) \<and>
   waitTime (activate1 (setsWaitTime (- 3)) 0 (add 1 (add 0 (fresh [0, 4])))) 0 = num 1 \<and>
   waitTime (activate1 (setsWaitTime 7) 0 (add 1 (add 0 (fresh [0, 4])))) 0 = num 7"
proof -
  let ?s = "add 1 (add 0 (fresh [0, 4]))"
  have h1: "peek ?s 0 = Some 0" by (simp add: scenario_defs)
  have h2: "fle (waitTime ?s 0) (num 0)" by (simp add: scenario_defs)
  have u1: "waitTime (setsWaitTime (- 3) 0 (snd (pop ?s))) 0 = num (- 3)"
    by (simp add: setsWaitTime_def)
  have u2: "waitTime (setsWaitTime 7 0 (snd (pop ?s))) 0 = num 7"
    by (simp add: setsWaitTime_def)
  have w: "waitTime ?s 0 = num 0" by (simp add: scenario_defs)
  from activation_enforces_waitTime [OF h1 h2, of "setsWaitTime (- 3)" "[]"]
    activation_enforces_waitTime [OF h1 h2, of "setsWaitTime 7" "[]"] h1 h2 u1 u2 w
  show ?thesis by simp
qed

text \<open>
  C1, as the spec has it, fails where the sum is rounded: a single entity is overdue by
  2 to the power 54 and its \<open>update()\<close> leaves its \<open>waitTime\<close> as it is. The scheduler
  assigns the sum of that \<open>waitTime\<close> and 1, which in double precision is that
  \<open>waitTime\<close> again: after the activation, and after the call of \<open>run()\<close>, the \<open>waitTime\<close>
  is the one at invocation, not that value plus 1.
\<close>

theorem activation_enforces_waitTime_counterexample:
  "peek scenarioFar 0 = Some 0 \<and>
   waitTime scenarioFar 0 = num (- (2 ^ 54)) \<and>
   waitTime (setsWaitTime (- (2 ^ 54)) 0 (snd (pop scenarioFar))) 0 = num (- (2 ^ 54)) \<and>
   waitTime (activate1 (setsWaitTime (- (2 ^ 54))) 0 scenarioFar) 0 = num (- (2 ^ 54)) \<and>
   waitTime (activate1 (setsWaitTime (- (2 ^ 54))) 0 scenarioFar) 0 \<noteq> num (- (2 ^ 54) + 1) \<and>
   map_option snd (run_updated (setsWaitTime (- (2 ^ 54))) scenarioFar) = Some [0] \<and>
   map_option (waitTimes [0]) (run (setsWaitTime (- (2 ^ 54))) scenarioFar)
     = Some [num (- (2 ^ 54))]"
  by (simp add: scenario_defs scenarioFar_def fadd_beyond_53_bits)

text \<open>
  C2, as the code has it. With A waiting 3, B waiting 1 and C waiting 5, and an
  \<open>update()\<close> of B that sets its \<open>waitTime\<close> to 2, one call of \<open>run()\<close> reads the elapsed
  time 1, decrements to A = 2, B = 0, C = 4, and activates B only. The \<open>waitTime\<close> of
  B was 0 when \<open>update()\<close> was invoked and is 2 when it returns: it has increased, so it
  is not corrected. The queue ends as A = 2, C = 4, B = 2.
\<close>

theorem scenario_ABC_run:
  "waitTimes [0, 1, 2] scenarioABC = [num 3, num 1, num 5] \<and>
   map_option (waitTime scenarioABC) (peek scenarioABC 0) = Some (num 1) \<and>
   map_option (waitTimes [0, 1, 2]) (decreaseAll scenarioABC) = Some [num 2, num 0, num 4] \<and>
   map_option snd (run_updated (setsWaitTime 2) scenarioABC) = Some [1] \<and>
   map_option content (run (setsWaitTime 2) scenarioABC) = Some [0, 2, 1] \<and>
   map_option (waitTimes [0, 2, 1]) (run (setsWaitTime 2) scenarioABC)
     = Some [num 2, num 4, num 2]"
  by (simp add: scenario_defs scenarioABC_def)

text \<open>
  C2, as the spec has it, fails: the \<open>waitTime\<close> of B is not 1 after the call.
\<close>

theorem scenario_ABC_run_counterexample:
  "map_option (waitTimes [0, 2, 1]) (run (setsWaitTime 2) scenarioABC)
     \<noteq> Some [num 2, num 4, num 1]"
  by (simp add: scenario_defs scenarioABC_def)

text \<open>
  C3, as the code has it. In a call of \<open>run()\<close> on a scheduler that is not paused and
  whose queue is not empty, is a heap under the current wait times (none of them
  \<open>NaN\<close>) and holds each entity once: the \<open>waitTime\<close> read at the root of the queue is
  the minimum \<open>waitTime\<close> of the queue at entry. When it is strictly positive, the
  decrement replaces the \<open>waitTime\<close> of every entity of the queue by the
  double-precision difference of that \<open>waitTime\<close> and the minimum, and leaves the queue
  as it is; otherwise it changes nothing. The difference is exact where both are
  integers and it is below 2 to the power 53 in magnitude. Every \<open>update()\<close> of the
  call is invoked by the activation loop, which starts from the state \<open>s1\<close> that the
  decrement has produced.
\<close>

theorem run_subtracts_minimum_first:
  assumes "\<not> paused s" and "\<not> isEmpty s" and "heap_inv s" and "distinct (content s)"
  shows "\<exists>first s1. peek s 0 = Some first \<and> minWaitTime s (waitTime s first) \<and>
           decreaseAll s = Some s1 \<and> content s1 = content s \<and>
           (flt (num 0) (waitTime s first) \<longrightarrow>
              (\<forall>e\<in>set (content s). waitTime s1 e = fsub (waitTime s e) (waitTime s first))) \<and>
           (\<not> flt (num 0) (waitTime s first) \<longrightarrow> s1 = s) \<and>
           (\<forall>e a m. waitTime s e = num a \<longrightarrow> waitTime s first = num m \<longrightarrow>
              \<bar>a - m\<bar> < 2 ^ 53 \<longrightarrow> fsub (waitTime s e) (waitTime s first) = num (a - m)) \<and>
           run_updated upd s =
             map_option (\<lambda>(s2, us). (pushAll us s2, us)) (activate upd s1 [])"
proof -
  from decreaseAll_heap [OF assms(2,3,4)] obtain first s1 where
    f: "peek s 0 = Some first" "minWaitTime s (waitTime s first)"
       "decreaseAll s = Some s1" "content s1 = content s"
    and w: "\<forall>e. waitTime s1 e =
              (if e \<in> set (content s) \<and> flt (num 0) (waitTime s first)
               then fsub (waitTime s e) (waitTime s first) else waitTime s e)"
    by blast
  have same: "s1 = s" if "\<not> flt (num 0) (waitTime s first)"
    using decreaseAll_nonpositive [OF f(1) that] f(3) by simp
  have exact: "fsub (waitTime s e) (waitTime s first) = num (a - m)"
    if "waitTime s e = num a" "waitTime s first = num m" "\<bar>a - m\<bar> < 2 ^ 53" for e a m
    using that by (simp add: fsub_num)
  have "run_updated upd s = map_option (\<lambda>(s2, us). (pushAll us s2, us)) (activate upd s1 [])"
    using assms(1,2) f(3) by (simp add: run_updated_def split: option.splits)
  with f w same exact show ?thesis by simp
qed

theorem run_subtracts_minimum_first_witness:
  "\<not> paused scenarioABC \<and> \<not> isEmpty scenarioABC \<and> heap_inv scenarioABC \<and>
   distinct (content scenarioABC) \<and>
   (\<exists>first s1. peek scenarioABC 0 = Some first \<and>
      minWaitTime scenarioABC (waitTime scenarioABC first) \<and>
      decreaseAll scenarioABC = Some s1 \<and> content s1 = content scenarioABC \<and>
      (flt (num 0) (waitTime scenarioABC first) \<longrightarrow>
         (\<forall>e\<in>set (content scenarioABC).
            waitTime s1 e = fsub (waitTime scenarioABC e) (waitTime scenarioABC first))) \<and>
      (\<not> flt (num 0) (waitTime scenarioABC first) \<longrightarrow> s1 = scenarioABC) \<and>
      (\<forall>e a m. waitTime scenarioABC e = num a \<longrightarrow> waitTime scenarioABC first = num m \<longrightarrow>
         \<bar>a - m\<bar> < 2 ^ 53 \<longrightarrow>
         fsub (waitTime scenarioABC e) (waitTime scenarioABC first) = num (a - m)) \<and>
      run_updated (setsWaitTime 2) scenarioABC =
        map_option (\<lambda>(s2, us). (pushAll us s2, us)) (activate (setsWaitTime 2) s1 [])) \<and>
   map_option (waitTime scenarioABC) (peek scenarioABC 0) = Some (num 1) \<and>
   minWaitTime scenarioABC (num 1) \<and>
   waitTimes [0, 1, 2] scenarioABC = [num 3, num 1, num 5] \<and>
   map_option (waitTimes [0, 1, 2]) (decreaseAll scenarioABC) = Some [num 2, num 0, num 4]"
proof -
  have h1: "\<not> paused scenarioABC" by (simp add: scenario_defs scenarioABC_def)
  have h2: "\<not> isEmpty scenarioABC" by (simp add: scenario_defs scenarioABC_def)
  have h4: "distinct (content scenarioABC)" by (simp add: scenario_defs scenarioABC_def)
  have p: "map_option (waitTime scenarioABC) (peek scenarioABC 0) = Some (num 1)"
    by (simp add: scenario_defs scenarioABC_def)
  have m: "minWaitTime scenarioABC (num 1)"
    by (simp add: scenario_defs scenarioABC_def minWaitTime_def)
  have b: "waitTimes [0, 1, 2] scenarioABC = [num 3, num 1, num 5]"
    by (simp add: scenario_defs scenarioABC_def)
  have w: "map_option (waitTimes [0, 1, 2]) (decreaseAll scenarioABC)
             = Some [num 2, num 0, num 4]"
    by (simp add: scenario_defs scenarioABC_def)
  from run_subtracts_minimum_first [OF h1 h2 heap_inv_scenarioABC h4, of "setsWaitTime 2"]
    h1 h2 heap_inv_scenarioABC h4 p m b w
  show ?thesis by (intro conjI)
qed

text \<open>
  C3, as the spec has it, fails on a queue that holds an entity twice, which \<open>add()\<close>
  does not prevent: with entity 0 waiting 3 and entity 1 waiting 10 and added twice, the
  minimum 3 is subtracted from the \<open>waitTime\<close> of entity 1 once for each rank it
  occupies, and the decrement leaves it at 4, not at 10 minus 3. It fails as well where
  the difference is rounded: with entity 0 waiting 1 and entity 1 waiting 2 to the
  power 54, the decrement leaves the \<open>waitTime\<close> of entity 1 as it was.
\<close>

theorem run_subtracts_minimum_first_counterexample:
  "\<not> paused scenarioTwice \<and> \<not> isEmpty scenarioTwice \<and> heap_inv scenarioTwice \<and>
   content scenarioTwice = [0, 1, 1] \<and>
   waitTimes [0, 1] scenarioTwice = [num 3, num 10] \<and>
   map_option (waitTime scenarioTwice) (peek scenarioTwice 0) = Some (num 3) \<and>
   map_option (waitTimes [0, 1]) (decreaseAll scenarioTwice) = Some [num 0, num 4] \<and>
   map_option (waitTimes [0, 1]) (decreaseAll scenarioTwice) \<noteq> Some [num 0, num (10 - 3)] \<and>
   \<not> paused scenarioLong \<and> \<not> isEmpty scenarioLong \<and> heap_inv scenarioLong \<and>
   content scenarioLong = [0, 1] \<and>
   waitTimes [0, 1] scenarioLong = [num 1, num (2 ^ 54)] \<and>
   map_option (waitTimes [0, 1]) (decreaseAll scenarioLong) = Some [num 0, num (2 ^ 54)] \<and>
   map_option (waitTimes [0, 1]) (decreaseAll scenarioLong) \<noteq> Some [num 0, num (2 ^ 54 - 1)]"
  by (simp add: scenario_defs scenarioTwice_def scenarioLong_def heap_inv_def no_NaN_def
        is_heap_ranks fsub_beyond_53_bits)




text \<open>
  C5. If the scheduler is paused, or its queue is empty, then \<open>run()\<close> returns and
  changes nothing: the state after it is the state before it (every \<open>waitTime\<close>, the
  queue, the flag \<open>paused\<close>), and no \<open>update()\<close> is invoked. Any number \<open>n\<close> of
  repeated calls then leaves the state identical, too.
\<close>

theorem run_paused_or_empty_noop:
  assumes "paused s \<or> isEmpty s"
  shows "run_updated upd s = Some (s, []) \<and> run upd s = Some s \<and>
         runs_updated upd n s = Some (s, replicate n []) \<and> runs upd n s = Some s"
proof -
  from assms have r: "run_updated upd s = Some (s, [])" by (simp add: run_updated_def)
  have "runs_updated upd n s = Some (s, replicate n [])"
    by (induction n) (simp_all add: r)
  with r show ?thesis by (simp add: run_def runs_def)
qed

theorem run_paused_or_empty_noop_witness:
  "(paused (pause scenarioABC) \<or> isEmpty (pause scenarioABC)) \<and>
   run (setsWaitTime 2) (pause scenarioABC) = Some (pause scenarioABC) \<and>
   runs (setsWaitTime 2) 3 (pause scenarioABC) = Some (pause scenarioABC) \<and>
   (paused (fresh []) \<or> isEmpty (fresh [])) \<and>
   run (setsWaitTime 2) (fresh []) = Some (fresh []) \<and>
   isPaused (fresh []) = (False, fresh [])"
proof -
  have h1: "paused (pause scenarioABC) \<or> isEmpty (pause scenarioABC)"
    by (simp add: pause_def)
  have h2: "paused (fresh []) \<or> isEmpty (fresh [])"
    by (simp add: fresh_def isEmpty_def)
  have "isPaused (fresh []) = (False, fresh [])"
    by (simp add: isPaused_def fresh_def)
  with h1 h2 run_paused_or_empty_noop [OF h1, of "setsWaitTime 2" 3]
    run_paused_or_empty_noop [OF h2, of "setsWaitTime 2" 0]
  show ?thesis by simp
qed

text \<open>
  C6, as the code has it. On a scheduler that is not paused and whose queue is a heap
  under the current wait times (none of them \<open>NaN\<close>) and holds each entity once, with
  updates that add no entity to the queue and write no \<open>waitTime\<close> but their own
  entity's: \<open>run()\<close> returns, its final state is the one after an invocation of
  \<open>update()\<close> on each of the entities it lists as updated, in turn, from the
  decremented state, and for every entity that is in the queue before the call and is
  not among these, the \<open>waitTime\<close> after the call is the double-precision difference of
  the \<open>waitTime\<close> before the call and the minimum \<open>waitTime\<close> of the queue at the start
  when that minimum is strictly positive, and is the \<open>waitTime\<close> before the call when
  the minimum is zero or negative.
\<close>

theorem run_advances_clock:
  assumes ni: "no_insert upd" and o: "own_waitTime upd" and np: "\<not> paused s"
    and h: "heap_inv s" and d: "distinct (content s)"
  shows "\<exists>s' us. run_updated upd s = Some (s', us) \<and>
           (\<forall>s1. decreaseAll s = Some s1 \<longrightarrow> s' = pushAll us (invoked upd us s1)) \<and>
           (\<forall>e\<in>set (content s). e \<notin> set us \<longrightarrow>
              (\<forall>m. minWaitTime s m \<longrightarrow>
                 waitTime s' e =
                   (if flt (num 0) m then fsub (waitTime s e) m else waitTime s e)))"
proof (cases "isEmpty s")
  case True
  then show ?thesis by (simp add: run_updated_def isEmpty_def decreaseAll_def peek_def)
next
  case False
  from decreaseAll_heap [OF False h d] obtain first s1 where
    min: "minWaitTime s (waitTime s first)" and s1: "decreaseAll s = Some s1"
    and w: "\<forall>e. waitTime s1 e =
              (if e \<in> set (content s) \<and> flt (num 0) (waitTime s first)
               then fsub (waitTime s e) (waitTime s first) else waitTime s e)"
    by blast
  from run_active [OF ni np False d] s1 o obtain s2 us where
    r: "run_updated upd s = Some (pushAll us s2, us)" and t: "s2 = invoked upd us s1"
    and wi: "waits_inv s1 s2 us"
    by auto
  have "waitTime (pushAll us s2) e =
          (if flt (num 0) m then fsub (waitTime s e) m else waitTime s e)"
    if "e \<in> set (content s)" "e \<notin> set us" "minWaitTime s m" for e m
  proof -
    from that(3) min have m: "m = waitTime s first" by (rule minWaitTime_unique)
    from wi that(2) have "waitTime s2 e = waitTime s1 e" by (simp add: waits_inv_def)
    with w that(1) m show ?thesis by simp
  qed
  with r t s1 show ?thesis by simp
qed

theorem run_advances_clock_witness:
  "no_insert (setsWaitTime 2) \<and> own_waitTime (setsWaitTime 2) \<and> \<not> paused scenarioABC \<and>
   heap_inv scenarioABC \<and> distinct (content scenarioABC) \<and>
   (\<exists>s' us. run_updated (setsWaitTime 2) scenarioABC = Some (s', us) \<and>
      (\<forall>s1. decreaseAll scenarioABC = Some s1 \<longrightarrow>
         s' = pushAll us (invoked (setsWaitTime 2) us s1)) \<and>
      (\<forall>e\<in>set (content scenarioABC). e \<notin> set us \<longrightarrow>
         (\<forall>m. minWaitTime scenarioABC m \<longrightarrow>
            waitTime s' e =
              (if flt (num 0) m then fsub (waitTime scenarioABC e) m
               else waitTime scenarioABC e)))) \<and>
   minWaitTime scenarioABC (num 1) \<and>
   map_option snd (run_updated (setsWaitTime 2) scenarioABC) = Some [1] \<and>
   waitTimes [0, 2] scenarioABC = [num 3, num 5] \<and>
   map_option (waitTimes [0, 2]) (run (setsWaitTime 2) scenarioABC) = Some [num 2, num 4] \<and>
   \<not> paused scenarioOverdue \<and> heap_inv scenarioOverdue \<and>
   distinct (content scenarioOverdue) \<and>
   (\<exists>s' us. run_updated (setsWaitTime 2) scenarioOverdue = Some (s', us) \<and>
      (\<forall>s1. decreaseAll scenarioOverdue = Some s1 \<longrightarrow>
         s' = pushAll us (invoked (setsWaitTime 2) us s1)) \<and>
      (\<forall>e\<in>set (content scenarioOverdue). e \<notin> set us \<longrightarrow>
         (\<forall>m. minWaitTime scenarioOverdue m \<longrightarrow>
            waitTime s' e =
              (if flt (num 0) m then fsub (waitTime scenarioOverdue e) m
               else waitTime scenarioOverdue e)))) \<and>
   minWaitTime scenarioOverdue (num (- 2)) \<and>
   map_option snd (run_updated (setsWaitTime 2) scenarioOverdue) = Some [0] \<and>
   waitTimes [1] scenarioOverdue = [num 5] \<and>
   map_option (waitTimes [1]) (run (setsWaitTime 2) scenarioOverdue) = Some [num 5]"
proof -
  have ni: "no_insert (setsWaitTime 2)"
    by (rule keeps_queue_no_insert [OF keeps_queue_setsWaitTime])
  have np: "\<not> paused scenarioABC"
    by (simp add: scenario_defs scenarioABC_def scenarioOverdue_def)
  have d: "distinct (content scenarioABC)"
    by (simp add: scenario_defs scenarioABC_def scenarioOverdue_def)
  have m: "minWaitTime scenarioABC (num 1)"
    by (simp add: scenario_defs scenarioABC_def scenarioOverdue_def minWaitTime_def)
  have u: "map_option snd (run_updated (setsWaitTime 2) scenarioABC) = Some [1]"
    by (simp add: scenario_defs scenarioABC_def scenarioOverdue_def)
  have b: "waitTimes [0, 2] scenarioABC = [num 3, num 5]"
    by (simp add: scenario_defs scenarioABC_def scenarioOverdue_def)
  have a: "map_option (waitTimes [0, 2]) (run (setsWaitTime 2) scenarioABC)
             = Some [num 2, num 4]"
    by (simp add: scenario_defs scenarioABC_def scenarioOverdue_def)
  have np': "\<not> paused scenarioOverdue"
    by (simp add: scenario_defs scenarioABC_def scenarioOverdue_def)
  have d': "distinct (content scenarioOverdue)"
    by (simp add: scenario_defs scenarioABC_def scenarioOverdue_def)
  have m': "minWaitTime scenarioOverdue (num (- 2))"
    by (simp add: scenario_defs scenarioABC_def scenarioOverdue_def minWaitTime_def)
  have u': "map_option snd (run_updated (setsWaitTime 2) scenarioOverdue) = Some [0]"
    by (simp add: scenario_defs scenarioABC_def scenarioOverdue_def)
  have b': "waitTimes [1] scenarioOverdue = [num 5]"
    by (simp add: scenario_defs scenarioABC_def scenarioOverdue_def)
  have a': "map_option (waitTimes [1]) (run (setsWaitTime 2) scenarioOverdue) = Some [num 5]"
    by (simp add: scenario_defs scenarioABC_def scenarioOverdue_def)
  note 1 = run_advances_clock [OF ni own_waitTime_setsWaitTime np heap_inv_scenarioABC d]
  note 2 = run_advances_clock
             [OF ni own_waitTime_setsWaitTime np' heap_inv_scenarioOverdue d']
  from 1 2 ni own_waitTime_setsWaitTime [of 2] np heap_inv_scenarioABC d m u b a
    np' heap_inv_scenarioOverdue d' m' u' b' a'
  show ?thesis by (intro conjI)
qed

text \<open>
  C6, as the spec has it, fails where the minimum is negative: with entity 0 overdue
  by 2 and entity 1 waiting 5, the call activates entity 0 only, and entity 1 still
  waits 5 after it, not 5 minus the minimum - 2. It fails on a paused scheduler as
  well: no entity of the paused scenario A, B, C is activated, and A still waits 3,
  not 3 minus the minimum 1.
\<close>

theorem run_advances_clock_counterexample:
  "minWaitTime scenarioOverdue (num (- 2)) \<and>
   map_option snd (run_updated (setsWaitTime 10) scenarioOverdue) = Some [0] \<and>
   waitTimes [1] scenarioOverdue = [num 5] \<and>
   map_option (waitTimes [1]) (run (setsWaitTime 10) scenarioOverdue) = Some [num 5] \<and>
   fsub (waitTime scenarioOverdue 1) (num (- 2)) = num 7 \<and>
   map_option (waitTimes [1]) (run (setsWaitTime 10) scenarioOverdue)
     \<noteq> Some [fsub (waitTime scenarioOverdue 1) (num (- 2))] \<and>
   minWaitTime (pause scenarioABC) (num 1) \<and>
   map_option snd (run_updated (setsWaitTime 2) (pause scenarioABC)) = Some [] \<and>
   waitTimes [0] (pause scenarioABC) = [num 3] \<and>
   map_option (waitTimes [0]) (run (setsWaitTime 2) (pause scenarioABC)) = Some [num 3] \<and>
   fsub (waitTime (pause scenarioABC) 0) (num 1) = num 2 \<and>
   map_option (waitTimes [0]) (run (setsWaitTime 2) (pause scenarioABC))
     \<noteq> Some [fsub (waitTime (pause scenarioABC) 0) (num 1)]"
  by (simp add: scenario_defs scenarioABC_def scenarioOverdue_def minWaitTime_def)

text \<open>
  C7, as the code has it. On a scheduler that is not paused and not empty, whose queue
  is a heap under the current wait times (none of them \<open>NaN\<close>) and holds each entity
  once, with updates that leave the queue as it is and write no \<open>waitTime\<close> but their
  own entity's: \<open>run()\<close> returns, and every entity of the queue whose \<open>waitTime\<close> is
  less than or equal to 0 after the decrement is activated in this same call. The
  entities it lists as updated are exactly the entities due after the decrement, each
  of them once, and its final state is the one after an invocation of \<open>update()\<close> on
  each of them, in turn, from the decremented state, followed by their reinsertion.
  Two entities tied at 0 after the decrement are both among them.
\<close>

theorem run_activates_all_due:
  assumes k: "keeps_queue upd" and o: "own_waitTime upd"
    and np: "\<not> paused s" and ne: "\<not> isEmpty s"
    and h: "heap_inv s" and d: "distinct (content s)"
  shows "\<exists>s1 us. decreaseAll s = Some s1 \<and>
           run_updated upd s = Some (pushAll us (invoked upd us s1), us) \<and>
           (\<forall>e\<in>set (content s). fle (waitTime s1 e) (num 0) \<longrightarrow> e \<in> set us) \<and>
           set us = set (eligible s1) \<and> distinct us"
proof -
  from decreaseAll_heap [OF ne h d] obtain first s1 where
    f: "peek s 0 = Some first" and min: "minWaitTime s (waitTime s first)"
    and s1: "decreaseAll s = Some s1" "content s1 = content s"
    and w: "\<forall>e. waitTime s1 e =
              (if e \<in> set (content s) \<and> flt (num 0) (waitTime s first)
               then fsub (waitTime s e) (waitTime s first) else waitTime s e)"
    and h1: "waitTime s first \<noteq> PosInf \<longrightarrow> heap_inv s1"
    by blast
  show ?thesis
  proof (cases "waitTime s first = PosInf")
    case True
    have nan: "waitTime s1 e = NaN" if "e \<in> set (content s)" for e
    proof -
      from min that have "fle PosInf (waitTime s e)" by (simp add: minWaitTime_def True)
      then have "waitTime s e = PosInf" by (rule fle_PosInf_left)
      with w that True show ?thesis by (simp add: num_def fsub_def)
    qed
    from f have p1: "peek s1 0 = Some first" and mem: "first \<in> set (content s)"
      by (auto simp: peek_root s1(2))
    from nan [OF mem] have "\<not> fle (waitTime s1 first) (num 0)" by simp
    with p1 have "activate upd s1 [] = Some (s1, [])" by (subst activate.simps) simp
    with np ne s1(1) have r: "run_updated upd s = Some (pushAll [] (invoked upd [] s1), [])"
      by (simp add: run_updated_def pushAll_def invoked_def)
    have "eligible s1 = []" using nan by (simp add: eligible_def s1(2))
    moreover have "\<forall>e\<in>set (content s). fle (waitTime s1 e) (num 0) \<longrightarrow> e \<in> set []"
      using nan by simp
    ultimately have "run_updated upd s = Some (pushAll [] (invoked upd [] s1), []) \<and>
           (\<forall>e\<in>set (content s). fle (waitTime s1 e) (num 0) \<longrightarrow> e \<in> set []) \<and>
           set [] = set (eligible s1) \<and> distinct ([] :: ent list)"
      using r by simp
    with s1(1) show ?thesis by blast
  next
    case False
    with h1 have hs1: "heap_inv s1" by simp
    from run_active [OF keeps_queue_no_insert [OF k] np ne d] s1 k o hs1 obtain s2 us where
      r: "run_updated upd s = Some (pushAll us s2, us)" and t: "s2 = invoked upd us s1"
      and sp: "split_inv (content s) s2 us" and wi: "waits_inv s1 s2 us"
      and du: "due_inv s1 s2 us"
      and pos: "\<forall>e. peek s2 0 = Some e \<longrightarrow> \<not> fle (waitTime s2 e) (num 0)"
      by auto
    from du have h2: "heap_inv s2" and cov: "set (content s) \<subseteq> set us \<union> set (content s2)"
      by (simp_all add: due_inv_def s1(2))
    have all: "e \<in> set us"
      if e: "e \<in> set (content s)" and le: "fle (waitTime s1 e) (num 0)" for e
    proof (rule ccontr)
      assume n: "e \<notin> set us"
      with cov e have c2: "e \<in> set (content s2)" by blast
      from wi n have "waitTime s2 e = waitTime s1 e" by (simp add: waits_inv_def)
      with heap_none_due [OF h2 pos c2] le show False by simp
    qed
    have "set us \<subseteq> set (eligible s1)"
      using sp wi by (auto simp: split_inv_def waits_inv_def eligible_def s1(2))
    moreover have "set (eligible s1) \<subseteq> set us"
      using all by (auto simp: eligible_def s1(2))
    ultimately have "set us = set (eligible s1)" by blast
    moreover from sp have "distinct us" by (simp add: split_inv_def)
    moreover from r t have "run_updated upd s = Some (pushAll us (invoked upd us s1), us)"
      by simp
    ultimately show ?thesis using s1(1) all by blast
  qed
qed

theorem run_activates_all_due_witness:
  "keeps_queue (setsWaitTime 2) \<and> own_waitTime (setsWaitTime 2) \<and>
   \<not> paused scenarioTie \<and> \<not> isEmpty scenarioTie \<and> heap_inv scenarioTie \<and>
   distinct (content scenarioTie) \<and>
   (\<exists>s1 us. decreaseAll scenarioTie = Some s1 \<and>
      run_updated (setsWaitTime 2) scenarioTie
        = Some (pushAll us (invoked (setsWaitTime 2) us s1), us) \<and>
      (\<forall>e\<in>set (content scenarioTie). fle (waitTime s1 e) (num 0) \<longrightarrow> e \<in> set us) \<and>
      set us = set (eligible s1) \<and> distinct us) \<and>
   map_option (waitTimes [0, 1, 2]) (decreaseAll scenarioTie) = Some [num 0, num 0, num 3] \<and>
   map_option eligible (decreaseAll scenarioTie) = Some [0, 1] \<and>
   map_option snd (run_updated (setsWaitTime 2) scenarioTie) = Some [0, 1] \<and>
   map_option (waitTimes [0, 1, 2]) (run (setsWaitTime 2) scenarioTie)
     = Some [num 2, num 2, num 3]"
proof -
  have np: "\<not> paused scenarioTie" by (simp add: scenario_defs scenarioTie_def)
  have ne: "\<not> isEmpty scenarioTie" by (simp add: scenario_defs scenarioTie_def)
  have d: "distinct (content scenarioTie)" by (simp add: scenario_defs scenarioTie_def)
  have w: "map_option (waitTimes [0, 1, 2]) (decreaseAll scenarioTie)
             = Some [num 0, num 0, num 3]"
    by (simp add: scenario_defs scenarioTie_def)
  have e: "map_option eligible (decreaseAll scenarioTie) = Some [0, 1]"
    by (simp add: scenario_defs scenarioTie_def eligible_def)
  have u: "map_option snd (run_updated (setsWaitTime 2) scenarioTie) = Some [0, 1]"
    by (simp add: scenario_defs scenarioTie_def)
  have a: "map_option (waitTimes [0, 1, 2]) (run (setsWaitTime 2) scenarioTie)
             = Some [num 2, num 2, num 3]"
    by (simp add: scenario_defs scenarioTie_def)
  from run_activates_all_due [OF keeps_queue_setsWaitTime own_waitTime_setsWaitTime
      np ne heap_inv_scenarioTie d]
    keeps_queue_setsWaitTime [of 2] own_waitTime_setsWaitTime [of 2]
    np ne heap_inv_scenarioTie d w e u a
  show ?thesis by (intro conjI)
qed

text \<open>
  C7, as the spec has it, fails with an \<open>update()\<close> that writes the \<open>waitTime\<close> of
  another entity: entities 0 and 1 are tied at 0 after the decrement, and the
  \<open>update()\<close> of entity 0, which leaves the queue as it is, sets the \<open>waitTime\<close> of
  entity 1 to 9. The call of \<open>run()\<close> then activates entity 0 only; entity 1, which was
  due after the decrement, is not activated in this call.
\<close>

theorem run_activates_all_due_counterexample:
  "\<not> paused scenarioTie \<and> \<not> isEmpty scenarioTie \<and> heap_inv scenarioTie \<and>
   content scenarioTie = [0, 1, 2] \<and> keeps_queue (setsBoth 2 1 9) \<and>
   map_option (waitTimes [0, 1, 2]) (decreaseAll scenarioTie) = Some [num 0, num 0, num 3] \<and>
   map_option eligible (decreaseAll scenarioTie) = Some [0, 1] \<and>
   map_option snd (run_updated (setsBoth 2 1 9) scenarioTie) = Some [0] \<and>
   map_option (waitTimes [0, 1, 2]) (run (setsBoth 2 1 9) scenarioTie)
     = Some [num 2, num 9, num 3]"
  by (simp add: scenario_defs scenarioTie_def setsBoth_def eligible_def heap_inv_def
        no_NaN_def is_heap_ranks keeps_queue_def)

text \<open>
  C8, as the code has it. If no \<open>update()\<close> adds an entity to the queue, every call of
  \<open>run()\<close> returns, and it invokes \<open>update()\<close> at most as many times as the queue has
  entities: on a scheduler that is not paused, its final state is the one after an
  invocation of \<open>update()\<close> on each of the entities it lists as updated, in turn, from
  the decremented state, followed by their reinsertion. If moreover an \<open>update()\<close>
  writes no \<open>waitTime\<close> but its own entity's, then every updated entity was due after
  the decrement (its \<open>waitTime\<close> less than or equal to 0), and the number of invocations
  is at most the number of the entities due after the decrement: the updated entities
  are, as a multiset, among the due ones.
\<close>

theorem run_terminates_bounded:
  assumes ni: "no_insert upd"
  shows "\<exists>s' us. run_updated upd s = Some (s', us) \<and> run upd s = Some s' \<and>
           length us \<le> heap_size s \<and>
           (\<forall>s1. decreaseAll s = Some s1 \<longrightarrow> \<not> paused s \<longrightarrow>
              s' = pushAll us (invoked upd us s1)) \<and>
           (own_waitTime upd \<longrightarrow>
              (\<forall>s1. decreaseAll s = Some s1 \<longrightarrow>
                 mset us \<subseteq># mset (eligible s1) \<and> length us \<le> length (eligible s1)))"
proof (cases "paused s \<or> isEmpty s")
  case True
  then show ?thesis by (auto simp: run_updated_def run_def decreaseAll_empty)
next
  case False
  then have act: "\<not> paused s" "\<not> isEmpty s" by simp_all
  from decreaseAll_total [OF act(2)] obtain s1 where
    s1: "decreaseAll s = Some s1" "content s1 = content s" by blast
  let ?I = "\<lambda>s' us. length (content s') + length us \<le> length (content s) \<and>
              (own_waitTime upd \<longrightarrow> bound_inv s1 s' us)"
  have init: "?I s1 []" by (simp add: s1(2) bound_inv_def)
  have step: "?I (activate1 upd e s') (us @ [e])"
    if i: "?I s' us" and p: "peek s' 0 = Some e" and due: "fle (waitTime s' e) (num 0)"
    for s' us e
    using activate1_shrinks [OF ni p] i bound_inv_step [OF ni _ _ p due, of s1 us] by auto
  from run_updated_rule [of upd s s1 ?I, OF ni act s1(1) init step]
  obtain s2 us where r: "run_updated upd s = Some (pushAll us s2, us)"
    and t: "s2 = invoked upd us s1"
    and l: "length (content s2) + length us \<le> length (content s)"
    and b: "own_waitTime upd \<longrightarrow> bound_inv s1 s2 us" by blast
  have "mset us \<subseteq># mset (eligible s1) \<and> length us \<le> length (eligible s1)"
    if o: "own_waitTime upd"
  proof -
    from b o have m: "mset us \<subseteq># mset (eligible s1)" by (simp add: bound_inv_eligible)
    from size_mset_mono [OF m] m show ?thesis by simp
  qed
  with r t l s1(1) show ?thesis by (simp add: heap_size_def run_def)
qed

theorem run_terminates_bounded_witness:
  "no_insert (setsWaitTime 2) \<and> own_waitTime (setsWaitTime 2) \<and>
   (\<exists>s' us. run_updated (setsWaitTime 2) scenarioABC = Some (s', us) \<and>
      run (setsWaitTime 2) scenarioABC = Some s' \<and>
      length us \<le> heap_size scenarioABC \<and>
      (\<forall>s1. decreaseAll scenarioABC = Some s1 \<longrightarrow> \<not> paused scenarioABC \<longrightarrow>
         s' = pushAll us (invoked (setsWaitTime 2) us s1)) \<and>
      (\<forall>s1. decreaseAll scenarioABC = Some s1 \<longrightarrow>
         mset us \<subseteq># mset (eligible s1) \<and> length us \<le> length (eligible s1))) \<and>
   \<not> paused scenarioABC \<and>
   map_option eligible (decreaseAll scenarioABC) = Some [1] \<and>
   map_option snd (run_updated (setsWaitTime 2) scenarioABC) = Some [1]"
proof -
  have ni: "no_insert (setsWaitTime 2)"
    by (rule keeps_queue_no_insert [OF keeps_queue_setsWaitTime])
  have np: "\<not> paused scenarioABC" by (simp add: scenario_defs scenarioABC_def)
  have e: "map_option eligible (decreaseAll scenarioABC) = Some [1]"
    by (simp add: scenario_defs scenarioABC_def eligible_def)
  have r: "map_option snd (run_updated (setsWaitTime 2) scenarioABC) = Some [1]"
    by (simp add: scenario_defs scenarioABC_def)
  from run_terminates_bounded [OF ni, of scenarioABC] ni own_waitTime_setsWaitTime [of 2]
    np e r
  show ?thesis by blast
qed

text \<open>
  C8, as the spec has it, fails with an \<open>update()\<close> that adds no entity to the queue
  but writes the \<open>waitTime\<close> of another entity: with entity 0 waiting 1 and entity 1
  waiting 5, entity 0 alone is due after the decrement, and its \<open>update()\<close> sets the
  \<open>waitTime\<close> of entity 1 to - 1. The call of \<open>run()\<close> then invokes \<open>update()\<close> twice,
  on entity 0 and on entity 1: more often than there are entities due after the
  decrement.
\<close>

theorem run_terminates_bounded_counterexample:
  "no_insert (setsBoth 3 1 (- 1)) \<and> \<not> paused scenarioPair \<and>
   content scenarioPair = [0, 1] \<and>
   map_option (waitTimes [0, 1]) (decreaseAll scenarioPair) = Some [num 0, num 4] \<and>
   map_option eligible (decreaseAll scenarioPair) = Some [0] \<and>
   map_option snd (run_updated (setsBoth 3 1 (- 1)) scenarioPair) = Some [0, 1]"
  by (simp add: scenario_defs scenarioPair_def setsBoth_def eligible_def no_insert_def)

text \<open>
  C9. \<open>pause()\<close>, \<open>resume()\<close> and \<open>isPaused()\<close> leave the queue as it is (its entities,
  their order and every \<open>waitTime\<close>), and everything else but the flag \<open>paused\<close>:
  \<open>pause()\<close> sets the flag, \<open>resume()\<close> clears it, and \<open>isPaused()\<close> returns it and
  changes nothing at all.
\<close>

theorem pause_resume_isPaused_frame:
  "content (pause s) = content s \<and> waitTime (pause s) = waitTime s \<and>
   world (pause s) = world s \<and> paused (pause s) = True \<and>
   content (resume s) = content s \<and> waitTime (resume s) = waitTime s \<and>
   world (resume s) = world s \<and> paused (resume s) = False \<and>
   isPaused s = (paused s, s)"
  by (simp add: pause_def resume_def isPaused_def)

text \<open>
  C10. If no \<open>update()\<close> adds an entity to the queue or removes one, \<open>run()\<close> returns
  and keeps the scheduled entities: every entity popped in the activation loop is
  pushed back before \<open>run()\<close> returns, so the queue holds the same entities after the
  call as before it (as a multiset, hence as a set as well), and its size is unchanged.
\<close>

theorem run_preserves_entities:
  assumes k: "keeps_entities upd"
  shows "\<exists>s' us. run_updated upd s = Some (s', us) \<and> run upd s = Some s' \<and>
           mset (content s') = mset (content s) \<and>
           set (content s') = set (content s) \<and> heap_size s' = heap_size s"
proof (cases "paused s \<or> isEmpty s")
  case True
  then show ?thesis by (simp add: run_updated_def run_def)
next
  case False
  then have act: "\<not> paused s" "\<not> isEmpty s" by simp_all
  from decreaseAll_total [OF act(2)] obtain s1 where
    s1: "decreaseAll s = Some s1" "content s1 = content s" by blast
  let ?I = "\<lambda>s' us. mset (content s') + mset us = mset (content s)"
  have init: "?I s1 []" by (simp add: s1(2))
  have step: "?I (activate1 upd e s') (us @ [e])"
    if i: "?I s' us" and p: "peek s' 0 = Some e" for s' us e
  proof -
    from p obtain rest where c: "content s' = e # rest" by (auto simp: peek_root)
    from k have "mset (content (upd e (snd (pop s')))) = mset (content (snd (pop s')))"
      by (simp add: keeps_entities_def)
    then have "mset (content (activate1 upd e s')) = mset rest"
      using mset_content_pop [OF c] by (simp add: content_activate1)
    with i c show ?thesis by simp
  qed
  from run_updated_rule [of upd s s1 ?I, OF keeps_entities_no_insert [OF k] act s1(1) init step]
  obtain s2 us where r: "run_updated upd s = Some (pushAll us s2, us)"
    and m: "mset (content s2) + mset us = mset (content s)" by blast
  have m': "mset (content (pushAll us s2)) = mset (content s)"
    using m by (simp add: add.commute)
  have "set (content (pushAll us s2)) = set (content s)"
    using m' by (rule mset_eq_setD)
  moreover have "length (content (pushAll us s2)) = length (content s)"
    using m' by (rule mset_eq_length)
  ultimately show ?thesis using r m' by (simp add: run_def heap_size_def)
qed

theorem run_preserves_entities_witness:
  "keeps_entities (setsWaitTime 2) \<and>
   (\<exists>s' us. run_updated (setsWaitTime 2) scenarioABC = Some (s', us) \<and>
      run (setsWaitTime 2) scenarioABC = Some s' \<and>
      mset (content s') = mset (content scenarioABC) \<and>
      set (content s') = set (content scenarioABC) \<and>
      heap_size s' = heap_size scenarioABC) \<and>
   content scenarioABC = [1, 0, 2] \<and>
   map_option content (run (setsWaitTime 2) scenarioABC) = Some [0, 2, 1]"
proof -
  have k: "keeps_entities (setsWaitTime 2)"
    by (rule keeps_queue_entities [OF keeps_queue_setsWaitTime])
  have c: "content scenarioABC = [1, 0, 2]" by (simp add: scenario_defs scenarioABC_def)
  have r: "map_option content (run (setsWaitTime 2) scenarioABC) = Some [0, 2, 1]"
    by (simp add: scenario_defs scenarioABC_def)
  from run_preserves_entities [OF k, of scenarioABC] k c r
  show ?thesis by blast
qed

end
